theory Spec2Isabelle
  imports Complex_Main "HOL-Library.Log_Nat"
begin

section \<open>The load-test engine of llm-test (engine/engine.go)\<close>

text \<open>
  The development embeds the measurement core of \<^verbatim>\<open>engine/engine.go\<close>: the percentile
  reducer \<^verbatim>\<open>calculatePercentile\<close>, one iteration of a worker goroutine, the dispatch and
  drain protocol of \<^verbatim>\<open>runTestWithConcurrency\<close> as a transition system over the goroutines'
  interleavings, the aggregation that follows \<^verbatim>\<open>wg.Wait()\<close>, and the matrix driver
  \<^verbatim>\<open>Run\<close>.
\<close>

subsection \<open>Go values\<close>

text \<open>
  \<^verbatim>\<open>time.Duration\<close> is an \<^verbatim>\<open>int64\<close> count of nanoseconds, and \<^verbatim>\<open>int\<close> is 64 bits wide on
  the platforms Go runs this program on. Counters and durations are modelled as
  unbounded integers: every counter of a cell is bounded by the number of requests the
  cell sent and every duration by the time the cell ran in nanoseconds, both far below
  \<open>2 ^ 63\<close>. The one place where the width matters, the conversion of a \<^verbatim>\<open>float64\<close> to an
  \<^verbatim>\<open>int\<close>, checks the range.
\<close>

type_synonym duration = int

datatype panic =
    IndexOutOfRange int nat    \<comment> \<open>index and length of the slice\<close>
  | IntegerDivideByZero
  | ConversionOutOfRange       \<comment> \<open>\<^verbatim>\<open>int(f)\<close> where \<^verbatim>\<open>f\<close> is outside the \<^verbatim>\<open>int\<close> range:
                                   the Go specification leaves the value to the implementation\<close>
  | MakeChanSizeOutOfRange

subsection \<open>IEEE 754 binary64 arithmetic\<close>

text \<open>
  A \<^verbatim>\<open>float64\<close> is a rational with a 53 bit significand, an infinity or a NaN. Every
  operation computes the exact result and rounds it to the nearest representable value,
  ties to the even significand. The sign of a zero is not modelled: no zero of this
  program is a divisor that came out of a negative computation.
\<close>

datatype float64 = Finite rat | PosInf | NegInf | NaN

text \<open>Round to the nearest integer, ties to even.\<close>

definition rne :: "rat \<Rightarrow> int" where
  "rne z = (let f = \<lfloor>z\<rfloor>; d = z - of_int f in
     if d < 1 / 2 then f
     else if 1 / 2 < d then f + 1
     else if even f then f else f + 1)"

text \<open>The binary exponent \<open>\<lfloor>log\<^sub>2 x\<rfloor>\<close> of a positive rational.\<close>

definition ilog2 :: "rat \<Rightarrow> int" where
  "ilog2 x = (if 1 \<le> x then bitlen \<lfloor>x\<rfloor> - 1 else - bitlen (\<lceil>1 / x\<rceil> - 1))"

text \<open>
  Rounding to binary64: the unit in the last place of \<open>x\<close> is \<open>2 ^ (e - 52)\<close> for the
  exponent \<open>e\<close> of \<open>x\<close>, not below the subnormal spacing \<open>2 ^ -1074\<close>; a result of
  magnitude \<open>2 ^ 1024\<close> overflows to an infinity.
\<close>

definition f64_round :: "rat \<Rightarrow> float64" where
  "f64_round x = (if x = 0 then Finite 0 else
     let e = max (ilog2 \<bar>x\<bar>) (- 1022);
         u = 2 powi (e - 52);
         y = u * of_int (rne (x / u))
     in if 2 powi 1024 \<le> \<bar>y\<bar> then (if 0 < x then PosInf else NegInf) else Finite y)"

definition f64_of_int :: "int \<Rightarrow> float64" where
  "f64_of_int i = f64_round (of_int i)"

fun f64_mul :: "float64 \<Rightarrow> float64 \<Rightarrow> float64" where
  "f64_mul (Finite a) (Finite b) = f64_round (a * b)"
| "f64_mul NaN _ = NaN"
| "f64_mul _ NaN = NaN"
| "f64_mul (Finite a) PosInf = (if a = 0 then NaN else if 0 < a then PosInf else NegInf)"
| "f64_mul (Finite a) NegInf = (if a = 0 then NaN else if 0 < a then NegInf else PosInf)"
| "f64_mul PosInf (Finite b) = (if b = 0 then NaN else if 0 < b then PosInf else NegInf)"
| "f64_mul NegInf (Finite b) = (if b = 0 then NaN else if 0 < b then NegInf else PosInf)"
| "f64_mul PosInf PosInf = PosInf"
| "f64_mul PosInf NegInf = NegInf"
| "f64_mul NegInf PosInf = NegInf"
| "f64_mul NegInf NegInf = PosInf"

fun f64_div :: "float64 \<Rightarrow> float64 \<Rightarrow> float64" where
  "f64_div (Finite a) (Finite b) =
     (if b = 0 then (if a = 0 then NaN else if 0 < a then PosInf else NegInf)
      else f64_round (a / b))"
| "f64_div NaN _ = NaN"
| "f64_div _ NaN = NaN"
| "f64_div (Finite a) PosInf = Finite 0"
| "f64_div (Finite a) NegInf = Finite 0"
| "f64_div PosInf (Finite b) = (if 0 \<le> b then PosInf else NegInf)"
| "f64_div NegInf (Finite b) = (if 0 \<le> b then NegInf else PosInf)"
| "f64_div PosInf PosInf = NaN"
| "f64_div PosInf NegInf = NaN"
| "f64_div NegInf PosInf = NaN"
| "f64_div NegInf NegInf = NaN"

fun f64_add :: "float64 \<Rightarrow> float64 \<Rightarrow> float64" where
  "f64_add (Finite a) (Finite b) = f64_round (a + b)"
| "f64_add NaN _ = NaN"
| "f64_add _ NaN = NaN"
| "f64_add (Finite a) PosInf = PosInf"
| "f64_add (Finite a) NegInf = NegInf"
| "f64_add PosInf (Finite b) = PosInf"
| "f64_add NegInf (Finite b) = NegInf"
| "f64_add PosInf PosInf = PosInf"
| "f64_add PosInf NegInf = NaN"
| "f64_add NegInf PosInf = NaN"
| "f64_add NegInf NegInf = NegInf"

text \<open>
  The conversion \<^verbatim>\<open>int(f)\<close> discards the fraction (truncation towards zero). Outside the
  range of \<^verbatim>\<open>int\<close> the language leaves the value open; the model reports that case.
\<close>

definition f64_to_int :: "float64 \<Rightarrow> panic + int" where
  "f64_to_int f = (case f of
     Finite x \<Rightarrow>
       (let t = (if 0 \<le> x then \<lfloor>x\<rfloor> else \<lceil>x\<rceil>) in
        if - (2 ^ 63) \<le> t \<and> t < 2 ^ 63 then Inr t else Inl ConversionOutOfRange)
   | _ \<Rightarrow> Inl ConversionOutOfRange)"

subsection \<open>Slices and their backing arrays\<close>

text \<open>
  A slice is a view of a backing array: two slices that share the array see each other's
  writes. The store holds the backing arrays of the \<^verbatim>\<open>[]time.Duration\<close> values,
  addressed by position; \<^verbatim>\<open>make\<close> allocates at the end of the store.
\<close>

type_synonym store = "duration list list"

record slice =
  ptr :: nat
  slen :: nat

definition slice_elems :: "store \<Rightarrow> slice \<Rightarrow> duration list" where
  "slice_elems h s = take (slen s) (if ptr s < length h then h ! ptr s else [])"

definition slice_ok :: "store \<Rightarrow> slice \<Rightarrow> bool" where
  "slice_ok h s \<longleftrightarrow> slen s = 0 \<or> (ptr s < length h \<and> slen s \<le> length (h ! ptr s))"

text \<open>\<^verbatim>\<open>make([]time.Duration, n)\<close>: a fresh zeroed array.\<close>

definition make_slice :: "store \<Rightarrow> nat \<Rightarrow> store \<times> slice" where
  "make_slice h n = (h @ [replicate n 0], \<lparr>ptr = length h, slen = n\<rparr>)"

text \<open>\<^verbatim>\<open>copy(dst, src)\<close> overwrites the first \<open>min (len dst) (len src)\<close> elements of \<open>dst\<close>.\<close>

definition copy_slice :: "store \<Rightarrow> slice \<Rightarrow> slice \<Rightarrow> store" where
  "copy_slice h dst src =
     (let k = min (slen dst) (slen src);
          a = h ! ptr dst
      in if k = 0 then h else h[ptr dst := take k (slice_elems h src) @ drop k a])"

text \<open>
  \<^verbatim>\<open>sort.Slice(s, less)\<close> with \<^verbatim>\<open>less(i, j) = s[i] < s[j]\<close> permutes the elements of the slice
  in place into ascending order. The order on \<^verbatim>\<open>int64\<close> is total, so the result is the
  one ascending arrangement of the elements, whichever algorithm produces it.
\<close>

definition sort_slice :: "store \<Rightarrow> slice \<Rightarrow> store" where
  "sort_slice h s =
     (if slen s = 0 then h
      else h[ptr s := sort (take (slen s) (h ! ptr s)) @ drop (slen s) (h ! ptr s)])"

text \<open>An indexed read \<^verbatim>\<open>s[i]\<close> panics outside \<open>0 \<le> i < len s\<close>.\<close>

definition index_slice :: "store \<Rightarrow> slice \<Rightarrow> int \<Rightarrow> panic + duration" where
  "index_slice h s i =
     (if 0 \<le> i \<and> i < int (slen s) then Inr (slice_elems h s ! nat i)
      else Inl (IndexOutOfRange i (slen s)))"

subsection \<open>The percentile reducer\<close>

text \<open>
  \<^verbatim>\<open>
  func calculatePercentile(latencies []time.Duration, percentile int) time.Duration {
      sortedLatencies := make([]time.Duration, len(latencies))
      copy(sortedLatencies, latencies)
      sort.Slice(sortedLatencies, func(i, j int) bool {
          return sortedLatencies[i] < sortedLatencies[j]
      })
      index := int(float64(len(sortedLatencies)-1) * float64(percentile) / 100.0)
      return sortedLatencies[index]
  }
  \<close>
\<close>

definition percentile_index :: "nat \<Rightarrow> int \<Rightarrow> panic + int" where
  "percentile_index n percentile =
     f64_to_int (f64_div (f64_mul (f64_of_int (int n - 1)) (f64_of_int percentile))
                         (Finite 100))"

definition calculatePercentile :: "store \<Rightarrow> slice \<Rightarrow> int \<Rightarrow> store \<times> (panic + duration)" where
  "calculatePercentile h latencies percentile =
     (let (h1, sortedLatencies) = make_slice h (slen latencies);
          h2 = copy_slice h1 sortedLatencies latencies;
          h3 = sort_slice h2 sortedLatencies
      in (h3, case percentile_index (slen sortedLatencies) percentile of
                Inl p \<Rightarrow> Inl p
              | Inr index \<Rightarrow> index_slice h3 sortedLatencies index))"


subsection \<open>Configuration, models and results\<close>

text \<open>
  \<^verbatim>\<open>config.TestConfig\<close>. The field \<^verbatim>\<open>LatencyPercentiles\<close> is written \<open>cfg_LatencyPercentiles\<close>,
  the result record has a field of the same name.
\<close>

record TestConfig =
  Concurrency :: int
  Duration :: duration
  WarmupDuration :: duration
  RequestTimeout :: duration
  ConcurrencyLevels :: "int list"
  ShowProgress :: bool
  MaxRetries :: int
  cfg_LatencyPercentiles :: "int list"

text \<open>
  What the engine reads of a \<^verbatim>\<open>model.LLMModel\<close>: \<^verbatim>\<open>GetName()\<close>, \<^verbatim>\<open>GetConcurrencyLevels()\<close> and
  \<^verbatim>\<open>GetStreamSetting()\<close>. The fourth method the engine calls, \<^verbatim>\<open>GenerateResponse\<close>, is the
  external service: what a call returns and how long it takes are inputs of the model
  (see \<open>Return\<close> below).
\<close>

record llm_model =
  mdl_Name :: string
  mdl_ConcurrencyLevels :: "int list"
  mdl_Stream :: "bool option"

text \<open>The fields of \<^verbatim>\<open>model.LLMResponse\<close> the engine reads.\<close>

record LLMResponse =
  resp_InputTokens :: int
  resp_OutputTokens :: int

text \<open>
  The pair \<^verbatim>\<open>(resp, err)\<close> returned by \<^verbatim>\<open>GenerateResponse\<close>: \<open>Inl\<close> carries \<^verbatim>\<open>err.Error()\<close> of a
  non-nil error, \<open>Inr\<close> the response.
\<close>

type_synonym invocation = "string + LLMResponse"

text \<open>
  \<^verbatim>\<open>engine.TestResult\<close>. A nil map reads like an empty one and the code never writes to a
  nil map, so \<^verbatim>\<open>LatencyPercentiles\<close> is a partial function that is empty where the Go map
  is nil.
\<close>

record TestResult =
  ModelName :: string
  ConcurrencyLevel :: int
  TotalRequests :: int
  SuccessRequests :: int
  FailedRequests :: int
  TotalDuration :: duration
  AvgLatency :: duration
  InputTokens :: int
  OutputTokens :: int
  TotalTokens :: int
  AvgInputTokens :: float64
  AvgOutputTokens :: float64
  AvgTotalTokens :: float64
  RequestsPerSec :: float64
  TokensPerSec :: float64
  Errors :: "string list"
  LatencyPercentiles :: "int \<rightharpoonup> duration"
  AllLatencies :: slice

text \<open>
  The composite literal of \<^verbatim>\<open>Run\<close>, \<^verbatim>\<open>&TestResult{ModelName: ..., ConcurrencyLevel: ...,
  Errors: make([]string, 0)}\<close>: every other field has its zero value.
\<close>

definition new_TestResult :: "string \<Rightarrow> int \<Rightarrow> TestResult" where
  "new_TestResult modelName concurrency =
     \<lparr>ModelName = modelName, ConcurrencyLevel = concurrency,
      TotalRequests = 0, SuccessRequests = 0, FailedRequests = 0,
      TotalDuration = 0, AvgLatency = 0,
      InputTokens = 0, OutputTokens = 0, TotalTokens = 0,
      AvgInputTokens = Finite 0, AvgOutputTokens = Finite 0, AvgTotalTokens = Finite 0,
      RequestsPerSec = Finite 0, TokensPerSec = Finite 0,
      Errors = [], LatencyPercentiles = Map.empty,
      AllLatencies = \<lparr>ptr = 0, slen = 0\<rparr>\<rparr>"

subsection \<open>One iteration of a worker\<close>

text \<open>
  The variables the worker goroutines share: the five counters updated with
  \<^verbatim>\<open>atomic.AddInt64\<close>, the slice \<^verbatim>\<open>latencies\<close> appended to under \<^verbatim>\<open>latenciesMutex\<close> (held here by
  its contents) and \<^verbatim>\<open>result.Errors\<close>.
\<close>

record shared =
  successCount :: int
  failedCount :: int
  totalLatency :: int
  inputTokens :: int
  outputTokens :: int
  latencies :: "duration list"
  result_Errors :: "string list"

definition shared_init :: shared where
  "shared_init = \<lparr>successCount = 0, failedCount = 0, totalLatency = 0, inputTokens = 0,
     outputTokens = 0, latencies = [], result_Errors = []\<rparr>"

text \<open>
  What an iteration does with the outcome of its call, once \<^verbatim>\<open>GenerateResponse\<close> has
  returned and \<^verbatim>\<open>latency := time.Since(start)\<close> is taken:
  \<^verbatim>\<open>
      latenciesMutex.Lock()
      latencies = append(latencies, latency)
      latenciesMutex.Unlock()

      if err != nil {
          atomic.AddInt64(&failedCount, 1)
          result.Errors = append(result.Errors, err.Error())
      } else {
          atomic.AddInt64(&successCount, 1)
          atomic.AddInt64(&totalLatency, int64(latency))
          atomic.AddInt64(&inputTokens, int64(resp.InputTokens))
          atomic.AddInt64(&outputTokens, int64(resp.OutputTokens))
      }
  \<close>
  The source remarks that the append to \<^verbatim>\<open>result.Errors\<close> is not synchronised. The function
  below is the effect of the statements of one iteration when no other goroutine
  interferes with that append.
\<close>

definition record_outcome :: "invocation \<Rightarrow> duration \<Rightarrow> shared \<Rightarrow> shared" where
  "record_outcome outcome latency v =
     (let v1 = v\<lparr>latencies := latencies v @ [latency]\<rparr> in
      case outcome of
        Inl err \<Rightarrow>
          v1\<lparr>failedCount := failedCount v1 + 1,
             result_Errors := result_Errors v1 @ [err]\<rparr>
      | Inr resp \<Rightarrow>
          v1\<lparr>successCount := successCount v1 + 1,
             totalLatency := totalLatency v1 + latency,
             inputTokens := inputTokens v1 + resp_InputTokens resp,
             outputTokens := outputTokens v1 + resp_OutputTokens resp\<rparr>)"

subsection \<open>Dispatch, workers and drain as a transition system\<close>

text \<open>
  The goroutines of one cell, each at one of its blocking or observable points.

  A worker runs
  \<^verbatim>\<open>
      for range jobs {
          sem <- struct{}{}
          ctx, cancel := context.WithTimeout(...)
          start := time.Now()
          resp, err := mdl.GenerateResponse(ctx, ...)
          latency := time.Since(start)
          ... record the outcome ...
          cancel()
          <-sem
      }
  \<close>
  and is \<open>Idle\<close> at the receive from \<^verbatim>\<open>jobs\<close>, \<open>Acquiring\<close> at the send to \<^verbatim>\<open>sem\<close> with a
  token taken, \<open>Calling\<close> inside \<^verbatim>\<open>GenerateResponse\<close>, \<open>Returned\<close> with the outcome and the
  latency before it records them, \<open>Releasing\<close> before the receive from \<^verbatim>\<open>sem\<close>, and \<open>Exited\<close>
  once the loop over the closed and empty channel has ended and \<^verbatim>\<open>wg.Done()\<close> has run.

  The dispatching goroutine runs
  \<^verbatim>\<open>
      for {
          select {
          case <-timeout:
              break loop
          default:
              jobs <- struct{}{}
              requestCount++
          }
      }
      close(jobs)
      wg.Wait()
  \<close>
  and is \<open>Selecting\<close> at the \<^verbatim>\<open>select\<close>, \<open>Pushed\<close> between the send and the increment, and
  \<open>Closed\<close> after \<^verbatim>\<open>close(jobs)\<close>, waiting in \<^verbatim>\<open>wg.Wait()\<close>.
\<close>

datatype worker_pc =
    Idle
  | Acquiring
  | Calling
  | Returned invocation duration
  | Releasing
  | Exited

datatype dispatcher_pc = Selecting | Pushed | Closed

record cell =
  concurrency :: nat           \<comment> \<open>the parameter \<^verbatim>\<open>concurrency\<close>, not negative once the channels exist\<close>
  jobs :: nat                  \<comment> \<open>tokens buffered in \<^verbatim>\<open>jobs\<close>, of capacity \<^verbatim>\<open>concurrency*2\<close>\<close>
  dispatcher :: dispatcher_pc
  requestCount :: int
  workers :: "worker_pc list"
  vars :: shared

text \<open>
  The state after the channels are made and the workers are started.
  \<^verbatim>\<open>make(chan struct{}, concurrency*2)\<close> panics for a negative size.
\<close>

definition cell_init :: "int \<Rightarrow> panic + cell" where
  "cell_init c =
     (if c < 0 then Inl MakeChanSizeOutOfRange
      else Inr \<lparr>concurrency = nat c, jobs = 0, dispatcher = Selecting, requestCount = 0,
                workers = replicate (nat c) Idle, vars = shared_init\<rparr>)"

text \<open>A worker holds a slot of \<^verbatim>\<open>sem\<close> from its send to \<^verbatim>\<open>sem\<close> until its receive from it.\<close>

fun holds_sem :: "worker_pc \<Rightarrow> bool" where
  "holds_sem Calling = True"
| "holds_sem (Returned outcome latency) = True"
| "holds_sem Releasing = True"
| "holds_sem w = False"

definition sem_held :: "cell \<Rightarrow> nat" where
  "sem_held s = length (filter holds_sem (workers s))"

text \<open>The calls of \<^verbatim>\<open>GenerateResponse\<close> that have started and not returned.\<close>

definition in_flight :: "cell \<Rightarrow> nat" where
  "in_flight s = length (filter (\<lambda>w. w = Calling) (workers s))"

text \<open>
  The steps of the goroutines. A step that is not enabled (a goroutine blocked on a
  channel, or not at that point of its code) yields \<open>None\<close>. The \<^verbatim>\<open>select\<close> takes the
  \<^verbatim>\<open>timeout\<close> case when the timer has fired and the default case otherwise; when the timer
  fires is not determined by the program, so both \<open>Timeout\<close> and \<open>Push\<close> are possible at
  every \<^verbatim>\<open>select\<close>. A send on a channel needs a free buffer slot; a receive needs a
  buffered element, or ends the \<^verbatim>\<open>range\<close> loop when the channel is closed and empty.
  \<open>Return i outcome latency\<close> is the return of the call of worker \<open>i\<close>, with the pair it
  returned and the measured latency. \<open>Record i\<close> is the whole of \<open>record_outcome\<close>: the
  append under the mutex and the atomic additions are one step, since they commute with
  the steps of the other goroutines and the properties below read the counters where
  no iteration is between them. With \<^verbatim>\<open>concurrency = 0\<close> both channels are unbuffered and
  there is no worker, so no send is ever possible.
\<close>

datatype event =
    Push
  | Count
  | Timeout
  | Take nat
  | Acquire nat
  | Return nat invocation duration
  | Record nat
  | Release nat
  | Exit nat

definition worker_at :: "cell \<Rightarrow> nat \<Rightarrow> worker_pc option" where
  "worker_at s i = (if i < length (workers s) then Some (workers s ! i) else None)"

fun step :: "event \<Rightarrow> cell \<Rightarrow> cell option" where
  "step Push s =
     (if dispatcher s = Selecting \<and> jobs s < 2 * concurrency s
      then Some (s\<lparr>jobs := jobs s + 1, dispatcher := Pushed\<rparr>) else None)"
| "step Count s =
     (if dispatcher s = Pushed
      then Some (s\<lparr>requestCount := requestCount s + 1, dispatcher := Selecting\<rparr>) else None)"
| "step Timeout s =
     (if dispatcher s = Selecting then Some (s\<lparr>dispatcher := Closed\<rparr>) else None)"
| "step (Take i) s =
     (if worker_at s i = Some Idle \<and> 0 < jobs s
      then Some (s\<lparr>jobs := jobs s - 1, workers := (workers s)[i := Acquiring]\<rparr>) else None)"
| "step (Acquire i) s =
     (if worker_at s i = Some Acquiring \<and> sem_held s < concurrency s
      then Some (s\<lparr>workers := (workers s)[i := Calling]\<rparr>) else None)"
| "step (Return i outcome latency) s =
     (if worker_at s i = Some Calling
      then Some (s\<lparr>workers := (workers s)[i := Returned outcome latency]\<rparr>) else None)"
| "step (Record i) s =
     (case worker_at s i of
        Some (Returned outcome latency) \<Rightarrow>
          Some (s\<lparr>vars := record_outcome outcome latency (vars s),
                  workers := (workers s)[i := Releasing]\<rparr>)
      | _ \<Rightarrow> None)"
| "step (Release i) s =
     (if worker_at s i = Some Releasing
      then Some (s\<lparr>workers := (workers s)[i := Idle]\<rparr>) else None)"
| "step (Exit i) s =
     (if worker_at s i = Some Idle \<and> jobs s = 0 \<and> dispatcher s = Closed
      then Some (s\<lparr>workers := (workers s)[i := Exited]\<rparr>) else None)"

text \<open>An interleaving of the goroutines is a list of steps, run from left to right.\<close>

fun run_events :: "event list \<Rightarrow> cell \<Rightarrow> cell option" where
  "run_events [] s = Some s"
| "run_events (e # es) s = (case step e s of None \<Rightarrow> None | Some s' \<Rightarrow> run_events es s')"

text \<open>\<^verbatim>\<open>wg.Wait()\<close> returns when the channel is closed and every worker has exited.\<close>

definition drained :: "cell \<Rightarrow> bool" where
  "drained s \<longleftrightarrow> dispatcher s = Closed \<and> list_all (\<lambda>w. w = Exited) (workers s)"


subsection \<open>Aggregation after the drain\<close>

text \<open>
  Integer division truncates towards zero and panics on a zero divisor.
\<close>

definition tquot :: "int \<Rightarrow> int \<Rightarrow> int" where
  "tquot a b = sgn a * sgn b * (\<bar>a\<bar> div \<bar>b\<bar>)"

definition trem :: "int \<Rightarrow> int \<Rightarrow> int" where
  "trem a b = a - b * tquot a b"

definition go_div :: "int \<Rightarrow> int \<Rightarrow> panic + int" where
  "go_div a b = (if b = 0 then Inl IntegerDivideByZero else Inr (tquot a b))"

text \<open>
  \<^verbatim>\<open>time.Duration.Seconds\<close> of the standard library:
  \<^verbatim>\<open>
      sec := d / Second
      nsec := d % Second
      return float64(sec) + float64(nsec)/1e9
  \<close>
\<close>

definition Seconds :: "duration \<Rightarrow> float64" where
  "Seconds d =
     (let sec = tquot d 1000000000;
          nsec = trem d 1000000000
      in f64_add (f64_of_int sec) (f64_div (f64_of_int nsec) (Finite 1000000000)))"

text \<open>
  The loop
  \<^verbatim>\<open>
      for _, p := range e.config.LatencyPercentiles {
          result.LatencyPercentiles[p] = calculatePercentile(latencies, p)
      }
  \<close>
\<close>

fun percentile_loop ::
  "store \<Rightarrow> slice \<Rightarrow> int list \<Rightarrow> (int \<rightharpoonup> duration) \<Rightarrow> store \<times> (panic + (int \<rightharpoonup> duration))" where
  "percentile_loop h lat [] m = (h, Inr m)"
| "percentile_loop h lat (p # ps) m =
     (case calculatePercentile h lat p of
        (h', Inl e) \<Rightarrow> (h', Inl e)
      | (h', Inr v) \<Rightarrow> percentile_loop h' lat ps (m(p \<mapsto> v)))"

text \<open>
  The statements of \<^verbatim>\<open>runTestWithConcurrency\<close> after \<^verbatim>\<open>wg.Wait()\<close>, from
  \<^verbatim>\<open>totalDuration := time.Since(startTime)\<close> to \<^verbatim>\<open>return nil\<close>, in three parts. The arguments
  are the configuration, the store with the slice header of \<^verbatim>\<open>latencies\<close>, the
  dispatcher's \<^verbatim>\<open>requestCount\<close>, the shared variables as the workers left them, the
  elapsed time read from the clock, and the result object the caller passed in.

  First the totals:
  \<^verbatim>\<open>
      result.TotalRequests += requestCount
      result.SuccessRequests += int(successCount)
      result.FailedRequests += int(failedCount)
      result.TotalDuration += totalDuration
  \<close>
  The workers have appended their errors to \<^verbatim>\<open>result.Errors\<close> already; the first update
  of \<open>totals\<close> brings the field of the record up to date with them.
\<close>

definition totals :: "int \<Rightarrow> shared \<Rightarrow> duration \<Rightarrow> TestResult \<Rightarrow> TestResult" where
  "totals reqCount v totalDuration result =
     (let r0 = result\<lparr>Errors := Errors result @ result_Errors v\<rparr>;
          r1 = r0\<lparr>TotalRequests := TotalRequests r0 + reqCount\<rparr>;
          r2 = r1\<lparr>SuccessRequests := SuccessRequests r1 + successCount v\<rparr>;
          r3 = r2\<lparr>FailedRequests := FailedRequests r2 + failedCount v\<rparr>
      in r3\<lparr>TotalDuration := TotalDuration r3 + totalDuration\<rparr>)"

text \<open>
  Then the averages and rates, computed only when a request succeeded:
  \<^verbatim>\<open>
      if successCount > 0 {
          avgLatency := time.Duration(totalLatency / successCount)
          result.AvgLatency = avgLatency

          result.InputTokens += inputTokens
          result.OutputTokens += outputTokens
          result.TotalTokens += inputTokens + outputTokens

          result.AvgInputTokens = float64(result.InputTokens) / float64(result.SuccessRequests)
          result.AvgOutputTokens = float64(result.OutputTokens) / float64(result.SuccessRequests)
          result.AvgTotalTokens = float64(result.TotalTokens) / float64(result.SuccessRequests)

          result.RequestsPerSec = float64(result.SuccessRequests) / totalDuration.Seconds()
          result.TokensPerSec = float64(result.TotalTokens) / totalDuration.Seconds()
      }
  \<close>
\<close>

definition rates :: "shared \<Rightarrow> duration \<Rightarrow> TestResult \<Rightarrow> panic + TestResult" where
  "rates v totalDuration r =
     (if 0 < successCount v then
        (case go_div (totalLatency v) (successCount v) of
           Inl e \<Rightarrow> Inl e
         | Inr avgLatency \<Rightarrow>
             (let r1 = r\<lparr>AvgLatency := avgLatency\<rparr>;
                  r2 = r1\<lparr>InputTokens := InputTokens r1 + inputTokens v\<rparr>;
                  r3 = r2\<lparr>OutputTokens := OutputTokens r2 + outputTokens v\<rparr>;
                  r4 = r3\<lparr>TotalTokens := TotalTokens r3 + (inputTokens v + outputTokens v)\<rparr>;
                  r5 = r4\<lparr>AvgInputTokens :=
                         f64_div (f64_of_int (InputTokens r4)) (f64_of_int (SuccessRequests r4))\<rparr>;
                  r6 = r5\<lparr>AvgOutputTokens :=
                         f64_div (f64_of_int (OutputTokens r5)) (f64_of_int (SuccessRequests r5))\<rparr>;
                  r7 = r6\<lparr>AvgTotalTokens :=
                         f64_div (f64_of_int (TotalTokens r6)) (f64_of_int (SuccessRequests r6))\<rparr>;
                  r8 = r7\<lparr>RequestsPerSec :=
                         f64_div (f64_of_int (SuccessRequests r7)) (Seconds totalDuration)\<rparr>
              in Inr (r8\<lparr>TokensPerSec :=
                         f64_div (f64_of_int (TotalTokens r8)) (Seconds totalDuration)\<rparr>)))
      else Inr r)"

text \<open>
  Last the latencies and their percentiles:
  \<^verbatim>\<open>
      result.AllLatencies = latencies

      if len(latencies) > 0 && len(e.config.LatencyPercentiles) > 0 {
          result.LatencyPercentiles = make(map[int]time.Duration)
          for _, p := range e.config.LatencyPercentiles { ... }
      }
  \<close>
\<close>

definition aggregate ::
  "TestConfig \<Rightarrow> store \<Rightarrow> slice \<Rightarrow> int \<Rightarrow> shared \<Rightarrow> duration \<Rightarrow> TestResult
     \<Rightarrow> store \<times> (panic + TestResult)" where
  "aggregate cfg h lat reqCount v totalDuration result =
     (case rates v totalDuration (totals reqCount v totalDuration result) of
        Inl e \<Rightarrow> (h, Inl e)
      | Inr r \<Rightarrow>
          (let r' = r\<lparr>AllLatencies := lat\<rparr> in
           if 0 < slen lat \<and> 0 < length (cfg_LatencyPercentiles cfg) then
             (case percentile_loop h lat (cfg_LatencyPercentiles cfg) Map.empty of
                (h', Inl e) \<Rightarrow> (h', Inl e)
              | (h', Inr m) \<Rightarrow> (h', Inr (r'\<lparr>LatencyPercentiles := m\<rparr>)))
           else (h, Inr r')))"

subsection \<open>One cell\<close>

text \<open>
  \<^verbatim>\<open>runTestWithConcurrency(mdl, concurrency, result)\<close>. Beyond its arguments, what the
  function computes depends on how the goroutines interleave with the calls' outcomes
  (the list of steps \<open>sched\<close>) and on the clock (\<open>totalDuration\<close>). The result is \<open>None\<close>
  when \<open>sched\<close> is not an execution of the cell that ends with \<^verbatim>\<open>wg.Wait()\<close> returning.
  Otherwise it is the store and either a panic or the updated result object together
  with the returned \<^verbatim>\<open>error\<close>, which is \<^verbatim>\<open>nil\<close> on the only \<^verbatim>\<open>return\<close> of the function.
  The backing array of \<^verbatim>\<open>latencies\<close> is placed at the end of the store. The model, the
  warm-up sleep and the progress spinner have no part in the values computed.
\<close>

definition runTestWithConcurrency ::
  "TestConfig \<Rightarrow> event list \<Rightarrow> duration \<Rightarrow> store \<Rightarrow> int \<Rightarrow> TestResult
     \<Rightarrow> (store \<times> (panic + TestResult \<times> string option)) option" where
  "runTestWithConcurrency cfg sched totalDuration h c result =
     (case cell_init c of
        Inl e \<Rightarrow> Some (h, Inl e)
      | Inr s0 \<Rightarrow>
          (case run_events sched s0 of
             None \<Rightarrow> None
           | Some s \<Rightarrow>
               if drained s then
                 (let h1 = h @ [latencies (vars s)];
                      lat = \<lparr>ptr = length h, slen = length (latencies (vars s))\<rparr>
                  in case aggregate cfg h1 lat (requestCount s) (vars s) totalDuration result of
                       (h', Inl e) \<Rightarrow> Some (h', Inl e)
                     | (h', Inr r) \<Rightarrow> Some (h', Inr (r, None)))
               else None))"

subsection \<open>The matrix driver\<close>

text \<open>\<^verbatim>\<open>fmt.Sprintf("%d", i)\<close>: the decimal digits, after a minus sign for a negative number.\<close>

fun decimal :: "nat \<Rightarrow> string" where
  "decimal n = (if n < 10 then [''0123456789'' ! n]
                else decimal (n div 10) @ [''0123456789'' ! (n mod 10)])"

declare decimal.simps [simp del]

definition itoa :: "int \<Rightarrow> string" where
  "itoa i = (if i < 0 then ''-'' @ decimal (nat (- i)) else decimal (nat i))"

text \<open>
  \<^verbatim>\<open>fmt.Errorf\<close> with the format of \<^verbatim>\<open>Run\<close>: the bytes of the two pieces of text around the
  model's name, in UTF-8, and the text of the wrapped error.
\<close>

definition errorf_prefix :: string where
  "errorf_prefix = [CHR 0xE6, CHR 0xB5, CHR 0x8B, CHR 0xE8, CHR 0xAF, CHR 0x95,
     CHR 0xE6, CHR 0xA8, CHR 0xA1, CHR 0xE5, CHR 0x9E, CHR 0x8B, CHR 0x20]"

definition errorf_infix :: string where
  "errorf_infix = [CHR 0x20, CHR 0xE5, CHR 0xA4, CHR 0xB1, CHR 0xE8, CHR 0xB4, CHR 0xA5,
     CHR 0x3A, CHR 0x20]"

definition Errorf :: "string \<Rightarrow> string \<Rightarrow> string" where
  "Errorf modelName err = errorf_prefix @ modelName @ errorf_infix @ err"

text \<open>
  \<^verbatim>\<open>Run\<close> calls \<^verbatim>\<open>runTestWithConcurrency\<close> once per cell. What a call does is not determined
  by its arguments (it depends on the service, the scheduler and the clock), so the
  callee is a parameter that threads a state of the outside world: it returns a panic, or
  the result object as the call left it together with the returned \<^verbatim>\<open>error\<close>.
\<close>

type_synonym 'w cell_runner =
  "llm_model \<Rightarrow> int \<Rightarrow> TestResult \<Rightarrow> 'w \<Rightarrow> (panic + TestResult \<times> string option) \<times> 'w"

text \<open>
  How a call of \<^verbatim>\<open>runTestWithConcurrency\<close> ended, and the log of the calls \<^verbatim>\<open>Run\<close> has made:
  the model's name and the concurrency level of each call, in order, with its end.
\<close>

datatype cell_end = Completed | Errored string | Panicked panic

type_synonym call_log = "(string \<times> int \<times> cell_end) list"

record 'w run_state =
  results_var :: "string \<rightharpoonup> TestResult"     \<comment> \<open>the local map \<^verbatim>\<open>results\<close>\<close>
  calls :: call_log
  world :: 'w

datatype flow = Continue | ReturnError string | Panic panic

text \<open>
  The inner loop of \<^verbatim>\<open>Run\<close>:
  \<^verbatim>\<open>
      for _, concurrency := range concurrencyLevels {
          resultKey := fmt.Sprintf("%s-%d", modelName, concurrency)
          result := &TestResult{ModelName: modelName, ConcurrencyLevel: concurrency, ...}
          results[resultKey] = result

          err := e.runTestWithConcurrency(mdl, concurrency, result)
          if err != nil {
              return nil, fmt.Errorf("... %s ...: %w", modelName, err)
          }
      }
  \<close>
  The map holds a pointer to the result object, so the entry shows what the call wrote.
\<close>

fun run_levels ::
  "'w cell_runner \<Rightarrow> llm_model \<Rightarrow> int list \<Rightarrow> 'w run_state \<Rightarrow> flow \<times> 'w run_state" where
  "run_levels runCell mdl [] st = (Continue, st)"
| "run_levels runCell mdl (c # cs) st =
     (let modelName = mdl_Name mdl;
          resultKey = modelName @ ''-'' @ itoa c;
          result = new_TestResult modelName c;
          st1 = st\<lparr>results_var := (results_var st)(resultKey \<mapsto> result)\<rparr>
      in case runCell mdl c result (world st1) of
           (Inl p, w) \<Rightarrow>
             (Panic p, st1\<lparr>calls := calls st1 @ [(modelName, c, Panicked p)], world := w\<rparr>)
         | (Inr (result', Some err), w) \<Rightarrow>
             (ReturnError (Errorf modelName err),
              st1\<lparr>results_var := (results_var st1)(resultKey \<mapsto> result'),
                  calls := calls st1 @ [(modelName, c, Errored err)], world := w\<rparr>)
         | (Inr (result', None), w) \<Rightarrow>
             run_levels runCell mdl cs
               (st1\<lparr>results_var := (results_var st1)(resultKey \<mapsto> result'),
                    calls := calls st1 @ [(modelName, c, Completed)], world := w\<rparr>))"

text \<open>
  The outer loop, with the choice of the concurrency levels:
  \<^verbatim>\<open>
      for _, mdl := range e.models {
          modelConcurrencyLevels := mdl.GetConcurrencyLevels()
          if len(modelConcurrencyLevels) > 0 {
              concurrencyLevels = modelConcurrencyLevels
          } else if len(e.config.ConcurrencyLevels) > 0 {
              concurrencyLevels = e.config.ConcurrencyLevels
          } else {
              concurrencyLevels = []int{e.config.Concurrency}
          }
          ...
      }
  \<close>
\<close>

fun run_models ::
  "'w cell_runner \<Rightarrow> TestConfig \<Rightarrow> llm_model list \<Rightarrow> 'w run_state \<Rightarrow> flow \<times> 'w run_state" where
  "run_models runCell cfg [] st = (Continue, st)"
| "run_models runCell cfg (mdl # ms) st =
     (let modelConcurrencyLevels = mdl_ConcurrencyLevels mdl;
          concurrencyLevels =
            (if 0 < length modelConcurrencyLevels then modelConcurrencyLevels
             else if 0 < length (ConcurrencyLevels cfg) then ConcurrencyLevels cfg
             else [Concurrency cfg])
      in case run_levels runCell mdl concurrencyLevels st of
           (Continue, st') \<Rightarrow> run_models runCell cfg ms st'
         | (ReturnError msg, st') \<Rightarrow> (ReturnError msg, st')
         | (Panic p, st') \<Rightarrow> (Panic p, st'))"

text \<open>
  \<^verbatim>\<open>TestEngine\<close>, with the fields \<^verbatim>\<open>Run\<close> reads and writes, and \<^verbatim>\<open>Run\<close> itself. It returns a
  panic, or the pair of the map (\<open>None\<close> for \<^verbatim>\<open>nil\<close>) and the error (\<open>None\<close> for \<^verbatim>\<open>nil\<close>);
  the engine, the log of the calls and the world are returned with it.
\<close>

record TestEngine =
  config :: TestConfig
  models :: "llm_model list"
  results :: "string \<rightharpoonup> TestResult"

record 'w run_end =
  returned :: "panic + (string \<rightharpoonup> TestResult) option \<times> string option"
  engine :: TestEngine
  cells_run :: call_log
  world_end :: 'w

definition Run :: "'w cell_runner \<Rightarrow> TestEngine \<Rightarrow> 'w \<Rightarrow> 'w run_end" where
  "Run runCell e w =
     (case run_models runCell (config e) (models e)
             \<lparr>results_var = Map.empty, calls = [], world = w\<rparr> of
        (Continue, st) \<Rightarrow>
          \<lparr>returned = Inr (Some (results_var st), None),
           engine = e\<lparr>results := results_var st\<rparr>,
           cells_run = calls st, world_end = world st\<rparr>
      | (ReturnError msg, st) \<Rightarrow>
          \<lparr>returned = Inr (None, Some msg), engine = e,
           cells_run = calls st, world_end = world st\<rparr>
      | (Panic p, st) \<Rightarrow>
          \<lparr>returned = Inl p, engine = e, cells_run = calls st, world_end = world st\<rparr>)"

subsection \<open>The specification's matrix\<close>

text \<open>
  The cells the specification asks for: for each variant in configured order, the levels
  of its own override when it has one, otherwise of the global list when that is not
  empty, otherwise the single global concurrency; one cell per level, in listed order.
\<close>

definition spec_levels :: "TestConfig \<Rightarrow> llm_model \<Rightarrow> int list" where
  "spec_levels cfg mdl =
     (if mdl_ConcurrencyLevels mdl \<noteq> [] then mdl_ConcurrencyLevels mdl
      else if ConcurrencyLevels cfg \<noteq> [] then ConcurrencyLevels cfg
      else [Concurrency cfg])"

definition spec_cells :: "TestConfig \<Rightarrow> llm_model list \<Rightarrow> (string \<times> int) list" where
  "spec_cells cfg ms = concat (map (\<lambda>mdl. map (\<lambda>c. (mdl_Name mdl, c)) (spec_levels cfg mdl)) ms)"


subsection \<open>Quantities of an execution\<close>

text \<open>
  A worker holds a token of \<^verbatim>\<open>jobs\<close> from the receive until it has recorded the outcome.
  \<open>pushes\<close>, \<open>takes\<close> and \<open>records\<close> count the sends to \<^verbatim>\<open>jobs\<close>, the receives from it and
  the recorded outcomes of an interleaving. \<open>cell_inv\<close> is the invariant that ties them to
  the state: every token sent is in the buffer or was received, and every token received
  is held by a worker or was recorded as one success or one failure.
\<close>

fun holds_token :: "worker_pc \<Rightarrow> bool" where
  "holds_token Acquiring = True"
| "holds_token Calling = True"
| "holds_token (Returned outcome latency) = True"
| "holds_token w = False"

definition tokens_held :: "cell \<Rightarrow> nat" where
  "tokens_held s = length (filter holds_token (workers s))"

fun is_Take :: "event \<Rightarrow> bool" where
  "is_Take (Take i) = True"
| "is_Take e = False"

fun is_Record :: "event \<Rightarrow> bool" where
  "is_Record (Record i) = True"
| "is_Record e = False"

definition pushes :: "event list \<Rightarrow> nat" where
  "pushes es = length (filter (\<lambda>e. e = Push) es)"

definition takes :: "event list \<Rightarrow> nat" where
  "takes es = length (filter is_Take es)"

definition records :: "event list \<Rightarrow> nat" where
  "records es = length (filter is_Record es)"

definition cell_inv :: "nat \<Rightarrow> nat \<Rightarrow> nat \<Rightarrow> cell \<Rightarrow> bool" where
  "cell_inv pushed taken recorded s \<longleftrightarrow>
     length (workers s) = concurrency s
   \<and> int pushed = requestCount s + (if dispatcher s = Pushed then 1 else 0)
   \<and> pushed = jobs s + taken
   \<and> taken = tokens_held s + recorded
   \<and> 0 \<le> successCount (vars s) \<and> 0 \<le> failedCount (vars s)
   \<and> int recorded = successCount (vars s) + failedCount (vars s)
   \<and> recorded = length (latencies (vars s))
   \<and> sem_held s \<le> concurrency s
   \<and> jobs s \<le> 2 * concurrency s
   \<and> (Exited \<in> set (workers s) \<longrightarrow> jobs s = 0 \<and> dispatcher s = Closed)"

subsection \<open>The shape of a call log\<close>

text \<open>
  \<open>cell_of\<close> is the cell of a logged call and \<open>completed\<close> says that the call returned no
  error. \<open>log_end\<close> relates the way the loops of \<^verbatim>\<open>Run\<close> ended to the log: after a normal end
  the log lists the given cells and every call completed; after an early return the last
  call is the one that returned the error the message wraps, and after a panic the one
  that panicked, and every earlier call completed. \<open>log_shape\<close> adds that the logged cells
  are an initial segment of the given cells.
\<close>

definition cell_of :: "string \<times> int \<times> cell_end \<Rightarrow> string \<times> int" where
  "cell_of x = (fst x, fst (snd x))"

definition completed :: "string \<times> int \<times> cell_end \<Rightarrow> bool" where
  "completed x \<longleftrightarrow> snd (snd x) = Completed"

definition log_end :: "flow \<Rightarrow> call_log \<Rightarrow> (string \<times> int) list \<Rightarrow> bool" where
  "log_end fl tr cells \<longleftrightarrow>
     (case fl of
        Continue \<Rightarrow> map cell_of tr = cells \<and> list_all completed tr
      | ReturnError msg \<Rightarrow>
          tr \<noteq> [] \<and> list_all completed (butlast tr)
          \<and> (\<exists>e. snd (snd (last tr)) = Errored e \<and> msg = Errorf (fst (last tr)) e)
      | Panic p \<Rightarrow>
          tr \<noteq> [] \<and> list_all completed (butlast tr) \<and> snd (snd (last tr)) = Panicked p)"

definition log_shape :: "flow \<Rightarrow> call_log \<Rightarrow> (string \<times> int) list \<Rightarrow> bool" where
  "log_shape fl tr cells \<longleftrightarrow> (\<exists>rest. map cell_of tr @ rest = cells) \<and> log_end fl tr cells"

section \<open>Properties\<close>

subsection \<open>Rounding\<close>

text \<open>
  Two facts about binary64 carry the percentile index: an integer below \<open>2 ^ 53\<close> is
  its own rounding, and the rounding of a quotient by 100 stays between the integers
  around it as long as the quotient is below \<open>2 ^ 46\<close>, where the spacing of binary64
  values is at most \<open>2 ^ -7\<close>, finer than one hundredth.
\<close>

lemma rne_of_int: "rne (of_int k) = k"
  by (simp add: rne_def)

lemma rne_ge: "of_int k \<le> z \<Longrightarrow> k \<le> rne z"
proof -
  assume "of_int k \<le> z"
  then have "k \<le> \<lfloor>z\<rfloor>" by (simp add: le_floor_iff)
  moreover have "\<lfloor>z\<rfloor> \<le> rne z" by (simp add: rne_def Let_def)
  ultimately show ?thesis by linarith
qed

lemma rne_less: assumes "z + 1 / 2 < of_int k" shows "rne z < k"
proof -
  have f: "of_int \<lfloor>z\<rfloor> \<le> z" by simp
  show ?thesis
  proof (cases "z - of_int \<lfloor>z\<rfloor> < 1 / 2")
    case True
    then have "rne z = \<lfloor>z\<rfloor>" by (simp add: rne_def)
    moreover have "z < of_int k" using assms by linarith
    ultimately show ?thesis by (simp add: floor_less_iff)
  next
    case False
    then have "rne z \<le> \<lfloor>z\<rfloor> + 1" by (simp add: rne_def Let_def)
    moreover have "of_int (\<lfloor>z\<rfloor> + 1) < (of_int k :: rat)" using False assms by (simp, linarith?)
    then have "\<lfloor>z\<rfloor> + 1 < k" by (simp only: of_int_less_iff)
    ultimately show ?thesis by linarith
  qed
qed

lemma ilog2_le: assumes "0 < x" shows "2 powi (ilog2 x) \<le> x"
proof (cases "1 \<le> x")
  case True
  then have pos: "0 < \<lfloor>x\<rfloor>" by simp
  from bitlen_bounds [OF pos] have "2 ^ nat (bitlen \<lfloor>x\<rfloor> - 1) \<le> \<lfloor>x\<rfloor>" by simp
  then have "(of_int (2 ^ nat (bitlen \<lfloor>x\<rfloor> - 1)) :: rat) \<le> of_int \<lfloor>x\<rfloor>"
    by (simp only: of_int_le_iff)
  also have "\<dots> \<le> x" by simp
  finally have "(2::rat) ^ nat (bitlen \<lfloor>x\<rfloor> - 1) \<le> x" by simp
  moreover have "0 \<le> bitlen \<lfloor>x\<rfloor> - 1" using pos by (simp add: bitlen_alt_def)
  ultimately show ?thesis using True by (simp add: ilog2_def power_int_def)
next
  case False
  define k where "k = \<lceil>1 / x\<rceil> - 1"
  have "1 < 1 / x" using False assms by simp
  then have "1 < \<lceil>1 / x\<rceil>" by (simp add: less_ceiling_iff)
  then have pos: "0 < k" by (simp add: k_def)
  from bitlen_bounds [OF pos] have "k + 1 \<le> 2 ^ nat (bitlen k)" by simp
  then have "(of_int (k + 1) :: rat) \<le> of_int (2 ^ nat (bitlen k))"
    by (simp only: of_int_le_iff)
  then have "(of_int \<lceil>1 / x\<rceil> :: rat) \<le> 2 ^ nat (bitlen k)" by (simp add: k_def)
  moreover have "1 / x \<le> of_int \<lceil>1 / x\<rceil>" by simp
  ultimately have "1 / x \<le> 2 ^ nat (bitlen k)" by linarith
  then have "1 / 2 ^ nat (bitlen k) \<le> x" using assms
    by (simp add: field_simps)
  moreover have "ilog2 x = - bitlen k" using False by (simp add: ilog2_def k_def)
  moreover have "0 \<le> bitlen k" by (rule bitlen_nonneg)
  ultimately show ?thesis
    by (simp add: power_int_minus power_int_nonneg_exp inverse_eq_divide)
qed

lemma ilog2_less: assumes "0 < x" "x < 2 powi k" shows "ilog2 x < k"
proof (rule ccontr)
  assume "\<not> ilog2 x < k"
  then have "k \<le> ilog2 x" by simp
  then have "(2::rat) powi k \<le> 2 powi ilog2 x" by (intro power_int_increasing) auto
  with ilog2_le [OF assms(1)] assms(2) show False by linarith
qed


lemma f64_round_int:
  assumes "\<bar>i\<bar> < 2 ^ 53"
  shows "f64_round (of_int i) = Finite (of_int i)"
proof (cases "i = 0")
  case True
  then show ?thesis by (simp add: f64_round_def)
next
  case False
  define x :: rat where "x = of_int i"
  define e where "e = max (ilog2 \<bar>x\<bar>) (- 1022)"
  define u :: rat where "u = 2 powi (e - 52)"
  have xpos: "0 < \<bar>x\<bar>" using False by (simp add: x_def)
  have "\<bar>x\<bar> = of_int \<bar>i\<bar>" by (simp add: x_def)
  also have "\<dots> < of_int (2 ^ 53)" using assms by (simp only: of_int_less_iff)
  finally have "\<bar>x\<bar> < 2 powi 53" by simp
  from ilog2_less [OF xpos this] have e52: "e \<le> 52" by (simp add: e_def)
  then have u: "u = 1 / 2 ^ nat (52 - e)"
    by (cases "e = 52") (simp_all add: u_def power_int_def inverse_eq_divide power_one_over)
  have "x / u = of_int (i * 2 ^ nat (52 - e))" by (simp add: u x_def)
  then have "rne (x / u) = i * 2 ^ nat (52 - e)" by (simp only: rne_of_int)
  then have y: "u * of_int (rne (x / u)) = x" by (simp add: u x_def)
  have "\<bar>x\<bar> < 2 powi 1024" using \<open>\<bar>x\<bar> < 2 powi 53\<close> by simp
  then show ?thesis using False y
    unfolding f64_round_def Let_def x_def [symmetric] e_def [symmetric] u_def [symmetric]
    by (simp add: x_def)
qed

lemma f64_round_between:
  assumes x: "0 < x" "x < 2 ^ 46"
    and a: "0 \<le> a" "of_int a \<le> x"
    and b: "x + 1 / 100 \<le> of_int b" "b \<le> 2 ^ 46"
  shows "\<exists>y. f64_round x = Finite y \<and> of_int a \<le> y \<and> y < of_int b"
proof -
  define e where "e = max (ilog2 \<bar>x\<bar>) (- 1022)"
  define u :: rat where "u = 2 powi (e - 52)"
  define N :: int where "N = 2 ^ nat (52 - e)"
  define y where "y = u * of_int (rne (x / u))"
  have "\<bar>x\<bar> < 2 powi 46" using x by simp
  with x have "ilog2 \<bar>x\<bar> < 46" by (intro ilog2_less) simp_all
  then have e45: "e \<le> 45" by (simp add: e_def)
  then have u: "u = 1 / of_int N"
    by (simp add: u_def N_def power_int_def inverse_eq_divide power_one_over)
  have "(2::int) ^ 7 \<le> 2 ^ nat (52 - e)" using e45 by (intro power_increasing) simp_all
  then have N128: "128 \<le> N" by (simp add: N_def)
  then have Npos: "0 < (of_int N :: rat)" by simp
  have xu: "x / u = x * of_int N" by (simp add: u)
  have "of_int (a * N) \<le> x / u" using a Npos by (simp add: xu)
  then have lo: "a * N \<le> rne (x / u)" by (rule rne_ge)
  have "(128::rat) \<le> of_int N" using N128 by (simp only: of_int_le_iff [symmetric, where 'a = rat] of_int_numeral) 
  then have "1 / 2 < (1 / 100) * (of_int N :: rat)" by simp
  moreover have "x * of_int N + (1 / 100) * of_int N \<le> of_int b * (of_int N :: rat)"
  proof -
    have "(x + 1 / 100) * of_int N \<le> of_int b * (of_int N :: rat)"
      using b(1) Npos by (intro mult_right_mono) simp_all
    then show ?thesis by (simp only: distrib_right)
  qed
  ultimately have "x / u + 1 / 2 < of_int (b * N)" by (simp add: xu)
  then have hi: "rne (x / u) < b * N" by (rule rne_less)
  have ylo: "of_int a \<le> y"
  proof -
    have "(of_int (a * N) :: rat) \<le> of_int (rne (x / u))" using lo by (simp only: of_int_le_iff)
    then show ?thesis using Npos by (simp add: y_def u field_simps)
  qed
  have yhi: "y < of_int b"
  proof -
    have "(of_int (rne (x / u)) :: rat) < of_int (b * N)" using hi by (simp only: of_int_less_iff)
    then show ?thesis using Npos by (simp add: y_def u field_simps)
  qed
  have "(of_int b :: rat) \<le> of_int (2 ^ 46)" using b(2) by (simp only: of_int_le_iff)
  then have "y < 2 ^ 46" using yhi by simp
  moreover have "0 \<le> y" using ylo a(1) by (simp add: order_trans [of 0 "of_int a"])
  ultimately have "\<bar>y\<bar> < 2 powi 1024" by simp
  then have "f64_round x = Finite y" using x(1)
    unfolding f64_round_def Let_def e_def [symmetric] u_def [symmetric] y_def [symmetric]
    by simp
  with ylo yhi show ?thesis by blast
qed

lemma f64_to_int_between:
  assumes "of_int a \<le> y" "y < of_int a + 1" "0 \<le> a" "a < 2 ^ 63"
  shows "f64_to_int (Finite y) = Inr a"
proof -
  have "\<lfloor>y\<rfloor> = a" using assms(1,2) by (simp add: floor_unique)
  moreover have "0 \<le> y" using assms(1,3) by (simp add: order_trans [of 0 "of_int a"])
  ultimately show ?thesis using assms(3,4) by (simp add: f64_to_int_def)
qed

lemma percentile_index_exact:
  assumes n: "0 < n" "n \<le> 2 ^ 46" and p: "0 \<le> p" "p \<le> 100"
  shows "percentile_index n p = Inr ((int n - 1) * p div 100)"
proof -
  define X where "X = (int n - 1) * p"
  define a where "a = X div 100"
  have n': "0 \<le> int n - 1" "int n - 1 < 2 ^ 46" using n by simp_all
  have X0: "0 \<le> X" using n' p by (simp add: X_def)
  have "X \<le> (int n - 1) * 100" unfolding X_def using n' p by (intro mult_left_mono) simp_all
  then have Xhi: "X < 100 * 2 ^ 46" using n' by simp
  have i1: "f64_of_int (int n - 1) = Finite (of_int (int n - 1))"
    unfolding f64_of_int_def using n' by (intro f64_round_int) simp
  have i2: "f64_of_int p = Finite (of_int p)"
    unfolding f64_of_int_def using p by (intro f64_round_int) simp
  have "f64_round (of_int X) = Finite (of_int X)" using X0 Xhi by (intro f64_round_int) simp
  then have m: "f64_mul (f64_of_int (int n - 1)) (f64_of_int p) = Finite (of_int X)"
    by (simp add: i1 i2 X_def)
  have a0: "0 \<le> a" using X0 by (simp add: a_def)
  have ahi: "a < 2 ^ 46" using Xhi by (simp add: a_def)
  have "\<exists>y. f64_round (of_int X / 100) = Finite y \<and> of_int a \<le> y \<and> y < of_int a + 1"
  proof (cases "X = 0")
    case True
    then show ?thesis by (simp add: f64_round_def a_def)
  next
    case False
    have lo: "a * 100 \<le> X" and hi: "X + 1 \<le> (a + 1) * 100" by (simp_all add: a_def)
    have "(of_int (a * 100) :: rat) \<le> of_int X" using lo by (simp only: of_int_le_iff)
    then have 1: "(of_int a :: rat) \<le> of_int X / 100" by simp
    have "(of_int (X + 1) :: rat) \<le> of_int ((a + 1) * 100)" using hi by (simp only: of_int_le_iff)
    then have 2: "of_int X / 100 + 1 / 100 \<le> (of_int (a + 1) :: rat)" by simp
    have "(of_int X :: rat) < of_int (100 * 2 ^ 46)" using Xhi by (simp only: of_int_less_iff)
    then have 3: "(of_int X :: rat) / 100 < 2 ^ 46" by simp
    have 4: "0 < (of_int X :: rat) / 100" using X0 False by simp
    have 5: "a + 1 \<le> 2 ^ 46" using ahi by simp
    from f64_round_between [OF 4 3 a0 1 2 5] show ?thesis by simp
  qed
  then obtain y where y: "f64_round (of_int X / 100) = Finite y" "of_int a \<le> y" "y < of_int a + 1"
    by blast
  have d: "f64_div (Finite (of_int X)) (Finite 100) = Finite y" using y(1) by simp
  have "f64_to_int (Finite y) = Inr a" using y(2,3) a0 ahi by (intro f64_to_int_between) simp_all
  then have "percentile_index n p = Inr a" unfolding percentile_index_def m d .
  then show ?thesis by (simp only: a_def X_def)
qed

lemma slice_elems_length: "slice_ok h s \<Longrightarrow> length (slice_elems h s) = slen s"
  by (auto simp: slice_ok_def slice_elems_def)

lemma calculatePercentile_store:
  assumes "slice_ok h s"
  shows "fst (calculatePercentile h s p) = h @ [sort (slice_elems h s)]"
proof (cases "slen s = 0")
  case True
  then show ?thesis
    by (simp add: calculatePercentile_def make_slice_def copy_slice_def sort_slice_def
        slice_elems_def Let_def)
next
  case False
  with assms have ok: "ptr s < length h" "slen s \<le> length (h ! ptr s)"
    by (simp_all add: slice_ok_def)
  then show ?thesis using False
    by (simp add: calculatePercentile_def make_slice_def copy_slice_def sort_slice_def
        slice_elems_def Let_def nth_append)
qed

lemma calculatePercentile_value:
  assumes "slice_ok h s"
  shows "snd (calculatePercentile h s p) =
    (case percentile_index (slen s) p of Inl e \<Rightarrow> Inl e
     | Inr i \<Rightarrow> if 0 \<le> i \<and> i < int (slen s) then Inr (sort (slice_elems h s) ! nat i)
                else Inl (IndexOutOfRange i (slen s)))"
proof -
  have "fst (calculatePercentile h s p) = h @ [sort (slice_elems h s)]"
    using assms by (rule calculatePercentile_store)
  then have h3: "sort_slice (copy_slice (h @ [replicate (slen s) 0]) \<lparr>ptr = length h, slen = slen s\<rparr> s)
      \<lparr>ptr = length h, slen = slen s\<rparr> = h @ [sort (slice_elems h s)]"
    by (simp add: calculatePercentile_def make_slice_def Let_def)
  have "slice_elems (h @ [sort (slice_elems h s)]) \<lparr>ptr = length h, slen = slen s\<rparr>
      = sort (slice_elems h s)"
    using slice_elems_length [OF assms] by (simp add: slice_elems_def)
  then show ?thesis
    by (simp add: calculatePercentile_def make_slice_def Let_def h3 index_slice_def
        split: sum.splits)
qed

subsection \<open>The percentile reducer\<close>

text \<open>
  C2. For every non-empty latency slice of length \<open>n\<close> and every percentile \<open>p\<close> from 0
  to 100, \<^verbatim>\<open>calculatePercentile\<close> returns the element at zero-based index
  \<open>\<lfloor>(n - 1) * p / 100\<rfloor>\<close> of the ascending arrangement of the slice's elements: nearest
  rank, no interpolation. The index is computed in binary64; it is the exact floor for
  every slice of at most \<open>2 ^ 46\<close> elements, more than the address space of a Go process
  can hold (\<open>2 ^ 48\<close> bytes, eight bytes an element). The witness is the specification's
  example: for 10ms, 20ms, 30ms, 40ms, 50ms and \<open>p = 50\<close> the result is 30ms.
\<close>

theorem calculatePercentile_nearest_rank:
  assumes "slice_ok h l" and "0 < slen l" and "slen l \<le> 2 ^ 46" and "0 \<le> p" and "p \<le> 100"
  shows "snd (calculatePercentile h l p) =
    Inr (sort (slice_elems h l) ! nat \<lfloor>of_int ((int (slen l) - 1) * p) / (100 :: rat)\<rfloor>)"
proof -
  define i where "i = (int (slen l) - 1) * p div 100"
  have idx: "percentile_index (slen l) p = Inr i"
    unfolding i_def using assms(2-5) by (rule percentile_index_exact)
  have fl: "\<lfloor>of_int ((int (slen l) - 1) * p) / (100 :: rat)\<rfloor> = i"
    unfolding i_def using floor_divide_of_int_eq [of "(int (slen l) - 1) * p" 100, where ?'a = rat]
    by simp
  have "0 \<le> (int (slen l) - 1) * p" using assms(2,4) by simp
  then have i0: "0 \<le> i" by (simp add: i_def)
  have "(int (slen l) - 1) * p \<le> (int (slen l) - 1) * 100"
    using assms(2,5) by (intro mult_left_mono) simp_all
  then have "i \<le> int (slen l) - 1" by (simp add: i_def)
  then have "i < int (slen l)" by simp
  with i0 show ?thesis
    unfolding fl by (simp add: calculatePercentile_value [OF assms(1)] idx)
qed

theorem calculatePercentile_nearest_rank_witness:
  "slice_ok [[10000000, 20000000, 30000000, 40000000, 50000000]] \<lparr>ptr = 0, slen = 5\<rparr>
   \<and> 0 < slen \<lparr>ptr = 0, slen = 5\<rparr> \<and> slen \<lparr>ptr = 0, slen = 5\<rparr> \<le> 2 ^ 46
   \<and> (0::int) \<le> 50 \<and> (50::int) \<le> 100
   \<and> snd (calculatePercentile [[10000000, 20000000, 30000000, 40000000, 50000000]]
        \<lparr>ptr = 0, slen = 5\<rparr> 50) = Inr 30000000"
  using calculatePercentile_nearest_rank
    [of "[[10000000, 20000000, 30000000, 40000000, 50000000]]" "\<lparr>ptr = 0, slen = 5\<rparr>" 50]
  by (simp add: slice_ok_def slice_elems_def)

lemma slice_ok_append: "slice_ok h s \<Longrightarrow> slice_ok (h @ ext) s"
  by (auto simp: slice_ok_def nth_append)

lemma slice_elems_append: "slice_ok h s \<Longrightarrow> slice_elems (h @ ext) s = slice_elems h s"
  by (auto simp: slice_ok_def slice_elems_def nth_append)

lemma calculatePercentile_append:
  assumes "slice_ok h s"
  shows "snd (calculatePercentile (h @ ext) s p) = snd (calculatePercentile h s p)"
proof -
  have ok: "slice_ok (h @ ext) s" using assms by (rule slice_ok_append)
  have e: "slice_elems (h @ ext) s = slice_elems h s" using assms by (rule slice_elems_append)
  show ?thesis
    unfolding calculatePercentile_value [OF ok] calculatePercentile_value [OF assms] e ..
qed

lemma percentile_loop_store:
  assumes "slice_ok h lat"
  shows "\<exists>ext. fst (percentile_loop h lat ps m) = h @ ext"
  using assms
proof (induction ps arbitrary: h m)
  case Nil
  then show ?case by simp
next
  case (Cons p ps)
  obtain h1 r where c: "calculatePercentile h lat p = (h1, r)" by (cases "calculatePercentile h lat p")
  have h1: "h1 = h @ [sort (slice_elems h lat)]"
    using calculatePercentile_store [OF Cons.prems, of p] c by simp
  show ?case
  proof (cases r)
    case (Inl e)
    then show ?thesis using c h1 by simp
  next
    case (Inr v)
    have "slice_ok h1 lat" unfolding h1 using Cons.prems by (rule slice_ok_append)
    from Cons.IH [OF this, of "m(p \<mapsto> v)"] obtain ext
      where "fst (percentile_loop h1 lat ps (m(p \<mapsto> v))) = h1 @ ext" by blast
    then show ?thesis using c Inr h1 by simp
  qed
qed

lemma percentile_loop_ok:
  assumes "slice_ok h lat"
    and "\<forall>p\<in>set ps. \<exists>v. snd (calculatePercentile h lat p) = Inr v"
  shows "snd (percentile_loop h lat ps m) =
    Inr (\<lambda>p. if p \<in> set ps
              then (case snd (calculatePercentile h lat p) of Inr v \<Rightarrow> Some v | Inl e \<Rightarrow> None)
              else m p)"
  using assms
proof (induction ps arbitrary: h m)
  case Nil
  then show ?case by simp
next
  case (Cons p ps)
  obtain h1 r where c: "calculatePercentile h lat p = (h1, r)" by (cases "calculatePercentile h lat p")
  have h1: "h1 = h @ [sort (slice_elems h lat)]"
    using calculatePercentile_store [OF Cons.prems(1), of p] c by simp
  from Cons.prems(2) c obtain v where v: "r = Inr v" by auto
  have ok1: "slice_ok h1 lat" unfolding h1 using Cons.prems(1) by (rule slice_ok_append)
  have same: "snd (calculatePercentile h1 lat q) = snd (calculatePercentile h lat q)" for q
    unfolding h1 using Cons.prems(1) by (rule calculatePercentile_append)
  have "\<forall>q\<in>set ps. \<exists>v. snd (calculatePercentile h1 lat q) = Inr v"
    using Cons.prems(2) by (simp add: same)
  from Cons.IH [OF ok1 this, of "m(p \<mapsto> v)"]
  have "snd (percentile_loop h1 lat ps (m(p \<mapsto> v))) =
    Inr (\<lambda>q. if q \<in> set ps
              then (case snd (calculatePercentile h lat q) of Inr v \<Rightarrow> Some v | Inl e \<Rightarrow> None)
              else (m(p \<mapsto> v)) q)"
    unfolding same .
  moreover have "snd (calculatePercentile h lat p) = Inr v" using c v by simp
  ultimately show ?case using c v by (auto simp: fun_eq_iff)
qed

lemma percentile_loop_all_ok:
  assumes "slice_ok h lat" and "snd (percentile_loop h lat ps m) = Inr m'"
  shows "\<forall>p\<in>set ps. \<exists>v. snd (calculatePercentile h lat p) = Inr v"
  using assms
proof (induction ps arbitrary: h m)
  case Nil
  then show ?case by simp
next
  case (Cons p ps)
  obtain h1 r where c: "calculatePercentile h lat p = (h1, r)" by (cases "calculatePercentile h lat p")
  have h1: "h1 = h @ [sort (slice_elems h lat)]"
    using calculatePercentile_store [OF Cons.prems(1), of p] c by simp
  from Cons.prems(2) c obtain v where v: "r = Inr v" by (cases r) auto
  have ok1: "slice_ok h1 lat" unfolding h1 using Cons.prems(1) by (rule slice_ok_append)
  have same: "snd (calculatePercentile h1 lat q) = snd (calculatePercentile h lat q)" for q
    unfolding h1 using Cons.prems(1) by (rule calculatePercentile_append)
  have "snd (percentile_loop h1 lat ps (m(p \<mapsto> v))) = Inr m'"
    using Cons.prems(2) c v by simp
  from Cons.IH [OF ok1 this] have "\<forall>q\<in>set ps. \<exists>v. snd (calculatePercentile h lat q) = Inr v"
    by (simp add: same)
  moreover have "snd (calculatePercentile h lat p) = Inr v" using c v by simp
  ultimately show ?case by simp
qed

lemma calculatePercentile_mono:
  assumes ok: "slice_ok h l" and n: "0 < slen l" "slen l \<le> 2 ^ 46"
    and pq: "0 \<le> p" "p \<le> q" "q \<le> 100"
  shows "\<exists>a b. snd (calculatePercentile h l p) = Inr a \<and> snd (calculatePercentile h l q) = Inr b
             \<and> a \<le> b"
proof -
  define i where "i = (int (slen l) - 1) * p div 100"
  define j where "j = (int (slen l) - 1) * q div 100"
  have ip: "percentile_index (slen l) p = Inr i"
    unfolding i_def using n pq by (intro percentile_index_exact) simp_all
  have iq: "percentile_index (slen l) q = Inr j"
    unfolding j_def using n pq by (intro percentile_index_exact) simp_all
  have n1: "0 \<le> int (slen l) - 1" using n by simp
  have "0 \<le> (int (slen l) - 1) * p" using n1 pq by simp
  then have i0: "0 \<le> i" by (simp add: i_def)
  have "(int (slen l) - 1) * p \<le> (int (slen l) - 1) * q"
    using n1 pq by (intro mult_left_mono) simp_all
  then have ij: "i \<le> j" unfolding i_def j_def by (intro zdiv_mono1) simp_all
  have "(int (slen l) - 1) * q \<le> (int (slen l) - 1) * 100"
    using n1 pq by (intro mult_left_mono) simp_all
  then have "j \<le> int (slen l) - 1" by (simp add: j_def)
  then have jn: "j < int (slen l)" by simp
  have a: "snd (calculatePercentile h l p) = Inr (sort (slice_elems h l) ! nat i)"
    using i0 ij jn by (simp add: calculatePercentile_value [OF ok] ip)
  have b: "snd (calculatePercentile h l q) = Inr (sort (slice_elems h l) ! nat j)"
    using i0 ij jn by (simp add: calculatePercentile_value [OF ok] iq)
  have "nat j < length (sort (slice_elems h l))"
    using jn i0 ij by (simp add: slice_elems_length [OF ok])
  moreover have "nat i \<le> nat j" using ij by simp
  ultimately have "sort (slice_elems h l) ! nat i \<le> sort (slice_elems h l) ! nat j"
    by (intro sorted_nth_mono) simp_all
  with a b show ?thesis by blast
qed

lemma percentile_loop_lookup:
  assumes "slice_ok h lat" and "percentile_loop h lat ps m0 = (h', Inr m)" and "p \<in> set ps"
  shows "\<exists>v. snd (calculatePercentile h lat p) = Inr v \<and> m p = Some v"
proof -
  have s: "snd (percentile_loop h lat ps m0) = Inr m" using assms(2) by simp
  from percentile_loop_all_ok [OF assms(1) s]
  have all: "\<forall>p\<in>set ps. \<exists>v. snd (calculatePercentile h lat p) = Inr v" .
  then obtain v where v: "snd (calculatePercentile h lat p) = Inr v" using assms(3) by blast
  from percentile_loop_ok [OF assms(1) all, of m0] s
  have "m = (\<lambda>p. if p \<in> set ps
              then (case snd (calculatePercentile h lat p) of Inr v \<Rightarrow> Some v | Inl e \<Rightarrow> None)
              else m0 p)" by simp
  then have "m p = Some v" using assms(3) v by simp
  with v show ?thesis by blast
qed

lemma aggregate_percentiles:
  assumes "aggregate cfg h lat n v d result = (h', Inr r)"
    and "0 < slen lat" and "cfg_LatencyPercentiles cfg \<noteq> []"
  shows "percentile_loop h lat (cfg_LatencyPercentiles cfg) Map.empty = (h', Inr (LatencyPercentiles r))
    \<and> AllLatencies r = lat"
proof -
  obtain r0 where r0: "rates v d (totals n v d result) = Inr r0"
    using assms(1) by (cases "rates v d (totals n v d result)") (simp_all add: aggregate_def)
  obtain h1 x where l: "percentile_loop h lat (cfg_LatencyPercentiles cfg) Map.empty = (h1, x)"
    by (cases "percentile_loop h lat (cfg_LatencyPercentiles cfg) Map.empty")
  show ?thesis
  proof (cases x)
    case (Inl e)
    then show ?thesis using assms r0 l by (simp add: aggregate_def)
  next
    case (Inr m)
    then show ?thesis using assms r0 l by (auto simp: aggregate_def)
  qed
qed

text \<open>Evaluation of the float operations and of the store operations on concrete inputs.\<close>

lemma f64_round_numeral:
  "numeral k < (2::int) ^ 53 \<Longrightarrow> f64_round (numeral k) = Finite (numeral k)"
  using f64_round_int [of "numeral k"] by simp

lemma f64_round_one: "f64_round 1 = Finite 1"
  using f64_round_int [of 1] by simp

lemma f64_round_zero: "f64_round 0 = Finite 0"
  by (simp add: f64_round_def)

lemmas eval_simps =
  calculatePercentile_def make_slice_def copy_slice_def sort_slice_def index_slice_def
  slice_elems_def slice_ok_def percentile_index_exact
  aggregate_def totals_def rates_def go_div_def tquot_def trem_def Seconds_def f64_of_int_def
  f64_round_numeral f64_round_one f64_round_zero new_TestResult_def Let_def

text \<open>
  C7. For a fixed latency slice and percentiles \<open>p \<le> q\<close>, both from 0 to 100,
  \<^verbatim>\<open>calculatePercentile\<close> returns for \<open>p\<close> a value that is at most the value for \<open>q\<close>; hence
  the percentile map a cell stores satisfies P50 \<le> P90 \<le> P95 \<le> P99 whenever the
  four are requested. The slice is not empty (the cell computes no percentile of an empty
  one) and has at most \<open>2 ^ 46\<close> elements, as in C2.
\<close>

theorem percentile_monotone:
  assumes "slice_ok h l" and "0 < slen l" and "slen l \<le> 2 ^ 46"
    and "0 \<le> p" and "p \<le> q" and "q \<le> 100"
  shows "(\<exists>a b. snd (calculatePercentile h l p) = Inr a \<and> snd (calculatePercentile h l q) = Inr b
             \<and> a \<le> b)
    \<and> (\<forall>cfg n v d result h' r.
          aggregate cfg h l n v d result = (h', Inr r)
          \<and> {50, 90, 95, 99} \<subseteq> set (cfg_LatencyPercentiles cfg)
          \<longrightarrow> (\<exists>p50 p90 p95 p99.
                LatencyPercentiles r 50 = Some p50 \<and> LatencyPercentiles r 90 = Some p90
              \<and> LatencyPercentiles r 95 = Some p95 \<and> LatencyPercentiles r 99 = Some p99
              \<and> p50 \<le> p90 \<and> p90 \<le> p95 \<and> p95 \<le> p99))"
proof (intro conjI allI impI)
  show "\<exists>a b. snd (calculatePercentile h l p) = Inr a \<and> snd (calculatePercentile h l q) = Inr b
             \<and> a \<le> b"
    using assms by (rule calculatePercentile_mono)
next
  fix cfg n v d result h' r
  assume a: "aggregate cfg h l n v d result = (h', Inr r)
          \<and> {50, 90, 95, 99} \<subseteq> set (cfg_LatencyPercentiles cfg)"
  then have mem: "50 \<in> set (cfg_LatencyPercentiles cfg)" "90 \<in> set (cfg_LatencyPercentiles cfg)"
    "95 \<in> set (cfg_LatencyPercentiles cfg)" "99 \<in> set (cfg_LatencyPercentiles cfg)"
    by simp_all
  then have ne: "cfg_LatencyPercentiles cfg \<noteq> []" by auto
  have agg: "aggregate cfg h l n v d result = (h', Inr r)" using a ..
  from aggregate_percentiles [OF agg assms(2) ne]
  have loop: "percentile_loop h l (cfg_LatencyPercentiles cfg) Map.empty = (h', Inr (LatencyPercentiles r))"
    ..
  from percentile_loop_lookup [OF assms(1) loop mem(1)] obtain p50
    where p50: "snd (calculatePercentile h l 50) = Inr p50" "LatencyPercentiles r 50 = Some p50"
    by blast
  from percentile_loop_lookup [OF assms(1) loop mem(2)] obtain p90
    where p90: "snd (calculatePercentile h l 90) = Inr p90" "LatencyPercentiles r 90 = Some p90"
    by blast
  from percentile_loop_lookup [OF assms(1) loop mem(3)] obtain p95
    where p95: "snd (calculatePercentile h l 95) = Inr p95" "LatencyPercentiles r 95 = Some p95"
    by blast
  from percentile_loop_lookup [OF assms(1) loop mem(4)] obtain p99
    where p99: "snd (calculatePercentile h l 99) = Inr p99" "LatencyPercentiles r 99 = Some p99"
    by blast
  have "p50 \<le> p90"
    using calculatePercentile_mono [OF assms(1-3), of 50 90] p50(1) p90(1) by simp
  moreover have "p90 \<le> p95"
    using calculatePercentile_mono [OF assms(1-3), of 90 95] p90(1) p95(1) by simp
  moreover have "p95 \<le> p99"
    using calculatePercentile_mono [OF assms(1-3), of 95 99] p95(1) p99(1) by simp
  ultimately show "\<exists>p50 p90 p95 p99.
                LatencyPercentiles r 50 = Some p50 \<and> LatencyPercentiles r 90 = Some p90
              \<and> LatencyPercentiles r 95 = Some p95 \<and> LatencyPercentiles r 99 = Some p99
              \<and> p50 \<le> p90 \<and> p90 \<le> p95 \<and> p95 \<le> p99"
    using p50(2) p90(2) p95(2) p99(2) by (intro exI conjI)
qed

theorem percentile_monotone_witness:
  "slice_ok [[50, 10, 40, 20, 30]] \<lparr>ptr = 0, slen = 5\<rparr>
   \<and> 0 < slen \<lparr>ptr = 0, slen = 5\<rparr> \<and> slen \<lparr>ptr = 0, slen = 5\<rparr> \<le> 2 ^ 46
   \<and> (0::int) \<le> 50 \<and> (50::int) \<le> 90 \<and> (90::int) \<le> 100
   \<and> snd (calculatePercentile [[50, 10, 40, 20, 30]] \<lparr>ptr = 0, slen = 5\<rparr> 50) = Inr 30
   \<and> snd (calculatePercentile [[50, 10, 40, 20, 30]] \<lparr>ptr = 0, slen = 5\<rparr> 90) = Inr 40
   \<and> (case aggregate
          \<lparr>Concurrency = 1, Duration = 1000000000, WarmupDuration = 0, RequestTimeout = 1000,
           ConcurrencyLevels = [], ShowProgress = False, MaxRetries = 0,
           cfg_LatencyPercentiles = [50, 90, 95, 99]\<rparr>
          [[50, 10, 40, 20, 30]] \<lparr>ptr = 0, slen = 5\<rparr> 5
          \<lparr>successCount = 5, failedCount = 0, totalLatency = 150, inputTokens = 10,
           outputTokens = 20, latencies = [50, 10, 40, 20, 30], result_Errors = []\<rparr>
          1000000000 (new_TestResult ''m'' 1) of
        (h', Inr r) \<Rightarrow>
          LatencyPercentiles r 50 = Some 30 \<and> LatencyPercentiles r 90 = Some 40
          \<and> LatencyPercentiles r 95 = Some 40 \<and> LatencyPercentiles r 99 = Some 40
      | (h', Inl e) \<Rightarrow> False)"
  using percentile_monotone [of "[[50, 10, 40, 20, 30]]" "\<lparr>ptr = 0, slen = 5\<rparr>" 50 90]
  by (simp add: eval_simps)

lemma calculatePercentile_store_prefix:
  "\<exists>a. fst (calculatePercentile h l p) = h @ [a]"
  by (simp add: calculatePercentile_def make_slice_def copy_slice_def sort_slice_def Let_def)

lemma percentile_loop_order:
  assumes ok: "slice_ok h l" and eq: "set ps' = set ps"
    and run: "percentile_loop h l ps Map.empty = (h1, Inr m)"
  shows "snd (percentile_loop h l ps' Map.empty) = Inr m"
proof -
  have s: "snd (percentile_loop h l ps Map.empty) = Inr m" using run by simp
  from percentile_loop_all_ok [OF ok s]
  have all: "\<forall>p\<in>set ps. \<exists>v. snd (calculatePercentile h l p) = Inr v" .
  then have all': "\<forall>p\<in>set ps'. \<exists>v. snd (calculatePercentile h l p) = Inr v" by (simp add: eq)
  show ?thesis
    using percentile_loop_ok [OF ok all, of Map.empty] percentile_loop_ok [OF ok all', of Map.empty] s
    by (simp add: eq)
qed

text \<open>
  C10. \<^verbatim>\<open>calculatePercentile\<close> never changes its input: it sorts a fresh copy, so every
  backing array that existed before the call, and with it the elements and the order of
  the slice passed in, is the same after the call. The same holds for the loop over any
  list of percentiles, so the slice stored in \<^verbatim>\<open>AllLatencies\<close>, which shares its array with
  \<^verbatim>\<open>latencies\<close>, reads the same after the percentiles are computed; and the map of computed
  percentiles depends on the set of requested percentiles only, not on their order.
\<close>

theorem calculatePercentile_frame:
  assumes "slice_ok h l"
  shows "take (length h) (fst (calculatePercentile h l p)) = h
    \<and> slice_elems (fst (calculatePercentile h l p)) l = slice_elems h l
    \<and> (\<forall>ps m. take (length h) (fst (percentile_loop h l ps m)) = h
             \<and> slice_elems (fst (percentile_loop h l ps m)) l = slice_elems h l)
    \<and> (\<forall>cfg n v d result h' r.
          aggregate cfg h l n v d result = (h', Inr r)
          \<longrightarrow> AllLatencies r = l \<and> slice_elems h' (AllLatencies r) = slice_elems h l)
    \<and> (\<forall>ps ps' h1 m.
          set ps' = set ps \<and> percentile_loop h l ps Map.empty = (h1, Inr m)
          \<longrightarrow> snd (percentile_loop h l ps' Map.empty) = Inr m)"
proof (intro conjI allI impI)
  obtain a where a: "fst (calculatePercentile h l p) = h @ [a]"
    using calculatePercentile_store_prefix by blast
  show "take (length h) (fst (calculatePercentile h l p)) = h" by (simp add: a)
  show "slice_elems (fst (calculatePercentile h l p)) l = slice_elems h l"
    unfolding a using assms by (rule slice_elems_append)
next
  fix ps m
  obtain ext where e: "fst (percentile_loop h l ps m) = h @ ext"
    using percentile_loop_store [OF assms] by blast
  show "take (length h) (fst (percentile_loop h l ps m)) = h" by (simp add: e)
  show "slice_elems (fst (percentile_loop h l ps m)) l = slice_elems h l"
    unfolding e using assms by (rule slice_elems_append)
next
  fix cfg n v d result h' r
  assume agg: "aggregate cfg h l n v d result = (h', Inr r)"
  obtain r0 where r0: "rates v d (totals n v d result) = Inr r0"
    using agg by (cases "rates v d (totals n v d result)") (simp_all add: aggregate_def)
  obtain h1 x where lp: "percentile_loop h l (cfg_LatencyPercentiles cfg) Map.empty = (h1, x)"
    by (cases "percentile_loop h l (cfg_LatencyPercentiles cfg) Map.empty")
  obtain ext where e: "h1 = h @ ext"
    using percentile_loop_store [OF assms, of "cfg_LatencyPercentiles cfg" Map.empty] lp by auto
  have "AllLatencies r = l \<and> (h' = h \<or> h' = h1)"
    using agg r0 lp by (cases x) (auto simp: aggregate_def Let_def split: if_splits)
  then show "AllLatencies r = l" and "slice_elems h' (AllLatencies r) = slice_elems h l"
    using slice_elems_append [OF assms, of ext] e by auto
next
  fix ps ps' h1 m
  assume "set ps' = set ps \<and> percentile_loop h l ps Map.empty = (h1, Inr m)"
  then show "snd (percentile_loop h l ps' Map.empty) = Inr m"
    using percentile_loop_order [OF assms] by blast
qed

theorem calculatePercentile_frame_witness:
  "slice_ok [[30, 10, 20, 40]] \<lparr>ptr = 0, slen = 4\<rparr>
   \<and> fst (calculatePercentile [[30, 10, 20, 40]] \<lparr>ptr = 0, slen = 4\<rparr> 50)
       = [[30, 10, 20, 40], [10, 20, 30, 40]]
   \<and> slice_elems (fst (calculatePercentile [[30, 10, 20, 40]] \<lparr>ptr = 0, slen = 4\<rparr> 50))
        \<lparr>ptr = 0, slen = 4\<rparr> = [30, 10, 20, 40]
   \<and> percentile_loop [[30, 10, 20, 40]] \<lparr>ptr = 0, slen = 4\<rparr> [50, 99] Map.empty
       = ([[30, 10, 20, 40], [10, 20, 30, 40], [10, 20, 30, 40]], Inr [50 \<mapsto> 20, 99 \<mapsto> 30])
   \<and> snd (percentile_loop [[30, 10, 20, 40]] \<lparr>ptr = 0, slen = 4\<rparr> [99, 50] Map.empty)
       = Inr [50 \<mapsto> 20, 99 \<mapsto> 30]"
proof -
  have ok: "slice_ok [[30, 10, 20, 40]] \<lparr>ptr = 0, slen = 4\<rparr>" by (simp add: slice_ok_def)
  have run: "percentile_loop [[30, 10, 20, 40]] \<lparr>ptr = 0, slen = 4\<rparr> [50, 99] Map.empty
       = ([[30, 10, 20, 40], [10, 20, 30, 40], [10, 20, 30, 40]], Inr [50 \<mapsto> 20, 99 \<mapsto> 30])"
    by (simp add: eval_simps)
  have st: "fst (calculatePercentile [[30, 10, 20, 40]] \<lparr>ptr = 0, slen = 4\<rparr> 50)
       = [[30, 10, 20, 40], [10, 20, 30, 40]]"
    by (simp add: eval_simps)
  note t = calculatePercentile_frame [OF ok, of 50]
  from t [THEN conjunct2, THEN conjunct1]
  have "slice_elems (fst (calculatePercentile [[30, 10, 20, 40]] \<lparr>ptr = 0, slen = 4\<rparr> 50))
        \<lparr>ptr = 0, slen = 4\<rparr> = slice_elems [[30, 10, 20, 40]] \<lparr>ptr = 0, slen = 4\<rparr>" .
  then have el: "slice_elems (fst (calculatePercentile [[30, 10, 20, 40]] \<lparr>ptr = 0, slen = 4\<rparr> 50))
        \<lparr>ptr = 0, slen = 4\<rparr> = [30, 10, 20, 40]"
    by (simp add: slice_elems_def)
  note t5 = t [THEN conjunct2, THEN conjunct2, THEN conjunct2, THEN conjunct2, rule_format]
  have perm: "set [99, 50] = set [50, (99::int)]" by auto
  from t5 [OF conjI [OF perm run]] have "snd (percentile_loop [[30, 10, 20, 40]] \<lparr>ptr = 0, slen = 4\<rparr> [99, 50] Map.empty)
          = Inr [50 \<mapsto> 20, 99 \<mapsto> 30]" .
  with ok run st el show ?thesis by blast
qed

subsection \<open>The worker iteration\<close>

text \<open>
  C4, as the code has it. In every iteration the latency is appended to the sample set,
  whether the call failed or succeeded. When the call fails, \<^verbatim>\<open>failedCount\<close> is incremented
  and the iteration appends the error's text to \<^verbatim>\<open>result.Errors\<close>; the success counter, the
  latency total and the token totals are unchanged. When the call succeeds,
  \<^verbatim>\<open>successCount\<close> is incremented, the latency is added to \<^verbatim>\<open>totalLatency\<close> and the token
  counts to \<^verbatim>\<open>inputTokens\<close> and \<^verbatim>\<open>outputTokens\<close>; the failure counter and the errors are
  unchanged.
\<close>

theorem record_outcome_effect:
  "latencies (record_outcome outcome latency v) = latencies v @ [latency]
   \<and> failedCount (record_outcome (Inl err) latency v) = failedCount v + 1
   \<and> result_Errors (record_outcome (Inl err) latency v) = result_Errors v @ [err]
   \<and> successCount (record_outcome (Inl err) latency v) = successCount v
   \<and> totalLatency (record_outcome (Inl err) latency v) = totalLatency v
   \<and> inputTokens (record_outcome (Inl err) latency v) = inputTokens v
   \<and> outputTokens (record_outcome (Inl err) latency v) = outputTokens v
   \<and> successCount (record_outcome (Inr resp) latency v) = successCount v + 1
   \<and> totalLatency (record_outcome (Inr resp) latency v) = totalLatency v + latency
   \<and> inputTokens (record_outcome (Inr resp) latency v) = inputTokens v + resp_InputTokens resp
   \<and> outputTokens (record_outcome (Inr resp) latency v) = outputTokens v + resp_OutputTokens resp
   \<and> failedCount (record_outcome (Inr resp) latency v) = failedCount v
   \<and> result_Errors (record_outcome (Inr resp) latency v) = result_Errors v"
proof -
  have "latencies (record_outcome outcome latency v) = latencies v @ [latency]"
    by (cases outcome) (simp_all add: record_outcome_def Let_def)
  then show ?thesis by (simp add: record_outcome_def Let_def)
qed

text \<open>
  The claim that the latency joins the sample set only on success does not hold: the
  iteration of a failed call with a latency of 7ns leaves that latency in \<^verbatim>\<open>latencies\<close>.
\<close>

theorem failed_latency_recorded:
  "latencies (record_outcome (Inl ''context deadline exceeded'') 7 shared_init)
     \<noteq> latencies shared_init"
  by (simp add: record_outcome_def shared_init_def Let_def)

subsection \<open>Dispatch and drain\<close>

lemma filter_update_count:
  "i < length ws \<Longrightarrow>
     length (filter P (ws[i := w])) + (if P (ws ! i) then 1 else 0)
       = length (filter P ws) + (if P w then 1 else 0)"
proof (induction ws arbitrary: i)
  case Nil
  then show ?case by simp
next
  case (Cons a ws)
  show ?case
  proof (cases i)
    case 0
    then show ?thesis by simp
  next
    case (Suc j)
    with Cons.prems have "j < length ws" by simp
    from Cons.IH [OF this] show ?thesis using Suc by simp
  qed
qed

lemma Exited_update: "w \<noteq> Exited \<Longrightarrow> Exited \<in> set (ws[i := w]) \<Longrightarrow> Exited \<in> set ws"
  using set_update_subset_insert [of ws i w] by auto

lemma record_outcome_counts:
  "successCount (record_outcome out l v) + failedCount (record_outcome out l v)
     = successCount v + failedCount v + 1
   \<and> successCount v \<le> successCount (record_outcome out l v)
   \<and> failedCount v \<le> failedCount (record_outcome out l v)
   \<and> latencies (record_outcome out l v) = latencies v @ [l]"
  by (cases out) (simp_all add: record_outcome_def Let_def)

lemma cell_init_inv: "cell_init c = Inr s \<Longrightarrow> cell_inv 0 0 0 s"
  by (auto simp: cell_init_def cell_inv_def tokens_held_def sem_held_def shared_init_def
      split: if_splits)

lemma step_inv:
  assumes "cell_inv p t r s" and "step e s = Some s'"
  shows "cell_inv (p + (if e = Push then 1 else 0)) (t + (if is_Take e then 1 else 0))
           (r + (if is_Record e then 1 else 0)) s'"
proof (cases e)
  case Push
  then show ?thesis using assms by (auto simp: cell_inv_def tokens_held_def sem_held_def split: if_splits)
next
  case Count
  then show ?thesis using assms by (auto simp: cell_inv_def tokens_held_def sem_held_def split: if_splits)
next
  case Timeout
  then show ?thesis using assms by (auto simp: cell_inv_def tokens_held_def sem_held_def split: if_splits)
next
  case (Take i)
  with assms have g: "i < length (workers s)" "workers s ! i = Idle" "0 < jobs s"
    and s': "s' = s\<lparr>jobs := jobs s - 1, workers := (workers s)[i := Acquiring]\<rparr>"
    by (auto simp: worker_at_def split: if_splits)
  from filter_update_count [OF g(1), of holds_token Acquiring]
       filter_update_count [OF g(1), of holds_sem Acquiring] g(2)
  have "length (filter holds_token ((workers s)[i := Acquiring])) = length (filter holds_token (workers s)) + 1"
    "length (filter holds_sem ((workers s)[i := Acquiring])) = length (filter holds_sem (workers s))"
    by simp_all
  moreover have "Exited \<notin> set (workers s)" using assms(1) g(3) by (auto simp: cell_inv_def)
  then have "Exited \<notin> set ((workers s)[i := Acquiring])" using Exited_update by blast
  ultimately show ?thesis using assms(1) g Take
    by (auto simp: cell_inv_def tokens_held_def sem_held_def s')
next
  case (Acquire i)
  with assms have g: "i < length (workers s)" "workers s ! i = Acquiring" "sem_held s < concurrency s"
    and s': "s' = s\<lparr>workers := (workers s)[i := Calling]\<rparr>"
    by (auto simp: worker_at_def split: if_splits)
  from filter_update_count [OF g(1), of holds_token Calling]
       filter_update_count [OF g(1), of holds_sem Calling] g(2)
  have "length (filter holds_token ((workers s)[i := Calling])) = length (filter holds_token (workers s))"
    "length (filter holds_sem ((workers s)[i := Calling])) = length (filter holds_sem (workers s)) + 1"
    by simp_all
  moreover have "Exited \<in> set ((workers s)[i := Calling]) \<Longrightarrow> Exited \<in> set (workers s)"
    using Exited_update by blast
  ultimately show ?thesis using assms(1) g Acquire
    by (auto simp: cell_inv_def tokens_held_def sem_held_def s')
next
  case (Return i out l)
  with assms have g: "i < length (workers s)" "workers s ! i = Calling"
    and s': "s' = s\<lparr>workers := (workers s)[i := Returned out l]\<rparr>"
    by (auto simp: worker_at_def split: if_splits)
  from filter_update_count [OF g(1), of holds_token "Returned out l"]
       filter_update_count [OF g(1), of holds_sem "Returned out l"] g(2)
  have "length (filter holds_token ((workers s)[i := Returned out l])) = length (filter holds_token (workers s))"
    "length (filter holds_sem ((workers s)[i := Returned out l])) = length (filter holds_sem (workers s))"
    by simp_all
  moreover have "Exited \<in> set ((workers s)[i := Returned out l]) \<Longrightarrow> Exited \<in> set (workers s)"
    using Exited_update by blast
  ultimately show ?thesis using assms(1) g Return
    by (auto simp: cell_inv_def tokens_held_def sem_held_def s')
next
  case (Record i)
  with assms obtain out l where g: "i < length (workers s)" "workers s ! i = Returned out l"
    and s': "s' = s\<lparr>vars := record_outcome out l (vars s), workers := (workers s)[i := Releasing]\<rparr>"
    by (auto simp: worker_at_def split: if_splits option.splits worker_pc.splits)
  from filter_update_count [OF g(1), of holds_token Releasing]
       filter_update_count [OF g(1), of holds_sem Releasing] g(2)
  have "length (filter holds_token ((workers s)[i := Releasing])) + 1 = length (filter holds_token (workers s))"
    "length (filter holds_sem ((workers s)[i := Releasing])) = length (filter holds_sem (workers s))"
    by simp_all
  moreover have "Exited \<in> set ((workers s)[i := Releasing]) \<Longrightarrow> Exited \<in> set (workers s)"
    using Exited_update by blast
  moreover note record_outcome_counts [of out l "vars s"]
  ultimately show ?thesis using assms(1) g Record
    by (auto simp: cell_inv_def tokens_held_def sem_held_def s')
next
  case (Release i)
  with assms have g: "i < length (workers s)" "workers s ! i = Releasing"
    and s': "s' = s\<lparr>workers := (workers s)[i := Idle]\<rparr>"
    by (auto simp: worker_at_def split: if_splits)
  from filter_update_count [OF g(1), of holds_token Idle]
       filter_update_count [OF g(1), of holds_sem Idle] g(2)
  have "length (filter holds_token ((workers s)[i := Idle])) = length (filter holds_token (workers s))"
    "length (filter holds_sem ((workers s)[i := Idle])) + 1 = length (filter holds_sem (workers s))"
    by simp_all
  moreover have "Exited \<in> set ((workers s)[i := Idle]) \<Longrightarrow> Exited \<in> set (workers s)"
    using Exited_update by blast
  ultimately show ?thesis using assms(1) g Release
    by (auto simp: cell_inv_def tokens_held_def sem_held_def s')
next
  case (Exit i)
  with assms have g: "i < length (workers s)" "workers s ! i = Idle" "jobs s = 0" "dispatcher s = Closed"
    and s': "s' = s\<lparr>workers := (workers s)[i := Exited]\<rparr>"
    by (auto simp: worker_at_def split: if_splits)
  from filter_update_count [OF g(1), of holds_token Exited]
       filter_update_count [OF g(1), of holds_sem Exited] g(2)
  have "length (filter holds_token ((workers s)[i := Exited])) = length (filter holds_token (workers s))"
    "length (filter holds_sem ((workers s)[i := Exited])) = length (filter holds_sem (workers s))"
    by simp_all
  then show ?thesis using assms(1) g Exit
    by (auto simp: cell_inv_def tokens_held_def sem_held_def s')
qed

lemma run_events_inv:
  assumes "run_events es s = Some s'" and "cell_inv p t r s"
  shows "cell_inv (p + pushes es) (t + takes es) (r + records es) s'"
  using assms
proof (induction es arbitrary: s p t r)
  case Nil
  then show ?case by (simp add: pushes_def takes_def records_def)
next
  case (Cons e es)
  from Cons.prems(1) obtain s1 where s1: "step e s = Some s1" "run_events es s1 = Some s'"
    by (auto split: option.splits)
  have a: "p + pushes (e # es) = p + (if e = Push then 1 else 0) + pushes es"
    by (simp add: pushes_def)
  have b: "t + takes (e # es) = t + (if is_Take e then 1 else 0) + takes es"
    by (simp add: takes_def)
  have c: "r + records (e # es) = r + (if is_Record e then 1 else 0) + records es"
    by (simp add: records_def)
  from Cons.IH [OF s1(2) step_inv [OF Cons.prems(2) s1(1)]]
  show ?case by (simp only: a b c)
qed

lemma in_flight_le_sem_held: "in_flight s \<le> sem_held s"
proof -
  have "length (filter (\<lambda>w. w = Calling) ws) \<le> length (filter holds_sem ws)" for ws
    by (induction ws) auto
  then show ?thesis by (simp add: in_flight_def sem_held_def)
qed

lemma drained_counts:
  assumes "cell_inv p t r s" and "drained s"
  shows "int p = requestCount s" and "t = p" and "r = p"
proof -
  have all: "\<forall>w\<in>set (workers s). w = Exited" and cl: "dispatcher s = Closed"
    using assms(2) by (simp_all add: drained_def list_all_iff)
  have "filter holds_token (workers s) = []" using all by (auto simp: filter_empty_conv)
  then have th: "tokens_held s = 0" by (simp add: tokens_held_def)
  have j: "jobs s = 0"
  proof (cases "workers s")
    case Nil
    then have "concurrency s = 0" using assms(1) by (simp add: cell_inv_def)
    moreover have "jobs s \<le> 2 * concurrency s" using assms(1) by (simp add: cell_inv_def)
    ultimately show ?thesis by simp
  next
    case (Cons w ws)
    then have "Exited \<in> set (workers s)" using all by auto
    then show ?thesis using assms(1) by (simp add: cell_inv_def)
  qed
  show "int p = requestCount s" using assms(1) cl by (simp add: cell_inv_def)
  show "t = p" using assms(1) j by (simp add: cell_inv_def)
  then show "r = p" using assms(1) th by (simp add: cell_inv_def)
qed

lemma step_concurrency: "step e s = Some s' \<Longrightarrow> concurrency s' = concurrency s"
  by (cases e) (auto split: if_splits option.splits worker_pc.splits)

lemma run_events_concurrency: "run_events es s = Some s' \<Longrightarrow> concurrency s' = concurrency s"
proof (induction es arbitrary: s)
  case Nil
  then show ?case by simp
next
  case (Cons e es)
  then obtain s1 where "step e s = Some s1" "run_events es s1 = Some s'"
    by (auto split: option.splits)
  with Cons.IH [of s1] step_concurrency [of e s s1] show ?case by simp
qed

text \<open>
  C9. In every state a cell of concurrency \<open>c\<close> can reach, the number of calls of
  \<^verbatim>\<open>GenerateResponse\<close> in flight is at most the number of slots of \<^verbatim>\<open>sem\<close> held, since a
  worker holds its slot from before the call until after it, and at most \<open>c\<close> slots are
  held: no more than \<open>c\<close> calls are ever in flight (20 for \<open>c = 20\<close>). In the witness both
  workers of a cell of concurrency 2 are in their calls, and no further worker can
  acquire a slot.
\<close>

theorem in_flight_bounded:
  assumes "cell_init c = Inr s0" and "run_events es s0 = Some s"
  shows "in_flight s \<le> sem_held s \<and> sem_held s \<le> nat c \<and> in_flight s \<le> nat c"
proof -
  have "cell_inv (0 + pushes es) (0 + takes es) (0 + records es) s"
    using assms(2) cell_init_inv [OF assms(1)] by (rule run_events_inv)
  then have "sem_held s \<le> concurrency s" by (simp add: cell_inv_def)
  moreover have "concurrency s = concurrency s0" using assms(2) by (rule run_events_concurrency)
  moreover have "concurrency s0 = nat c" using assms(1) by (auto simp: cell_init_def split: if_splits)
  moreover note in_flight_le_sem_held [of s]
  ultimately show ?thesis by simp
qed

lemma run2: "run_events [Push, Count, Push, Count, Take 0, Take (Suc 0), Acquire 0, Acquire (Suc 0)]
        \<lparr>concurrency = 2, jobs = 0, dispatcher = Selecting, requestCount = 0,
         workers = [Idle, Idle], vars = shared_init\<rparr>
      = Some \<lparr>concurrency = 2, jobs = 0, dispatcher = Selecting, requestCount = 2,
         workers = [Calling, Calling], vars = shared_init\<rparr>"
  by (simp add: worker_at_def sem_held_def)

theorem in_flight_bounded_witness:
  "cell_init 2 = Inr \<lparr>concurrency = 2, jobs = 0, dispatcher = Selecting, requestCount = 0,
         workers = [Idle, Idle], vars = shared_init\<rparr>
   \<and> run_events [Push, Count, Push, Count, Take 0, Take (Suc 0), Acquire 0, Acquire (Suc 0)]
        \<lparr>concurrency = 2, jobs = 0, dispatcher = Selecting, requestCount = 0,
         workers = [Idle, Idle], vars = shared_init\<rparr>
      = Some \<lparr>concurrency = 2, jobs = 0, dispatcher = Selecting, requestCount = 2,
         workers = [Calling, Calling], vars = shared_init\<rparr>
   \<and> in_flight \<lparr>concurrency = 2, jobs = 0, dispatcher = Selecting, requestCount = 2,
         workers = [Calling, Calling], vars = shared_init\<rparr> = 2
   \<and> sem_held \<lparr>concurrency = 2, jobs = 0, dispatcher = Selecting, requestCount = 2,
         workers = [Calling, Calling], vars = shared_init\<rparr> \<le> nat 2
   \<and> step (Acquire 0) \<lparr>concurrency = 2, jobs = 0, dispatcher = Selecting, requestCount = 2,
         workers = [Calling, Calling], vars = shared_init\<rparr> = None"
proof -
  have i: "cell_init 2 = Inr \<lparr>concurrency = 2, jobs = 0, dispatcher = Selecting, requestCount = 0,
         workers = [Idle, Idle], vars = shared_init\<rparr>"
    by (simp add: cell_init_def numeral_2_eq_2)
  from in_flight_bounded [OF i run2] show ?thesis
    using i run2 by (simp add: in_flight_def worker_at_def)
qed

subsection \<open>One cell\<close>

lemma rates_kept:
  assumes "rates v d r0 = Inr r1"
  shows "TotalRequests r1 = TotalRequests r0" and "SuccessRequests r1 = SuccessRequests r0"
    and "FailedRequests r1 = FailedRequests r0" and "TotalDuration r1 = TotalDuration r0"
    and "LatencyPercentiles r1 = LatencyPercentiles r0"
  using assms by (auto simp: rates_def go_div_def Let_def split: if_splits)

lemma rates_returns: "\<exists>r1. rates v d r0 = Inr r1"
  by (simp add: rates_def go_div_def Let_def)

lemma rates_zero: "successCount v = 0 \<Longrightarrow> rates v d r0 = Inr r0"
  by (simp add: rates_def)

lemma rates_pos:
  assumes "0 < successCount v" and "rates v d r0 = Inr r1"
  shows "RequestsPerSec r1 = f64_div (f64_of_int (SuccessRequests r1)) (Seconds d)"
    and "TokensPerSec r1 = f64_div (f64_of_int (TotalTokens r1)) (Seconds d)"
  using assms by (auto simp: rates_def go_div_def Let_def split: if_splits)

lemma totals_fields:
  "TotalRequests (totals n v d r) = TotalRequests r + n"
  "SuccessRequests (totals n v d r) = SuccessRequests r + successCount v"
  "FailedRequests (totals n v d r) = FailedRequests r + failedCount v"
  "TotalDuration (totals n v d r) = TotalDuration r + d"
  "RequestsPerSec (totals n v d r) = RequestsPerSec r"
  "TokensPerSec (totals n v d r) = TokensPerSec r"
  "AvgLatency (totals n v d r) = AvgLatency r"
  "AvgInputTokens (totals n v d r) = AvgInputTokens r"
  "AvgOutputTokens (totals n v d r) = AvgOutputTokens r"
  "AvgTotalTokens (totals n v d r) = AvgTotalTokens r"
  "LatencyPercentiles (totals n v d r) = LatencyPercentiles r"
  by (simp_all add: totals_def Let_def)

lemma aggregate_Inr:
  assumes "aggregate cfg h lat n v d result = (h', Inr r)"
  shows "\<exists>r1 m. rates v d (totals n v d result) = Inr r1
      \<and> r = r1\<lparr>AllLatencies := lat, LatencyPercentiles := m\<rparr>
      \<and> (if 0 < slen lat \<and> cfg_LatencyPercentiles cfg \<noteq> []
         then percentile_loop h lat (cfg_LatencyPercentiles cfg) Map.empty = (h', Inr m)
         else m = LatencyPercentiles r1)"
proof -
  obtain r1 where r1: "rates v d (totals n v d result) = Inr r1"
    using rates_returns by blast
  obtain h1 x where l: "percentile_loop h lat (cfg_LatencyPercentiles cfg) Map.empty = (h1, x)"
    by (cases "percentile_loop h lat (cfg_LatencyPercentiles cfg) Map.empty")
  show ?thesis
  proof (cases "0 < slen lat \<and> cfg_LatencyPercentiles cfg \<noteq> []")
    case True
    show ?thesis
    proof (cases x)
      case (Inl e)
      then show ?thesis using assms True by (simp add: aggregate_def Let_def r1 l)
    next
      case (Inr m)
      have "h' = h1" and "r = r1\<lparr>AllLatencies := lat, LatencyPercentiles := m\<rparr>"
        using assms True by (simp_all add: aggregate_def Let_def r1 l Inr)
      with True l Inr r1 have "rates v d (totals n v d result) = Inr r1
        \<and> r = r1\<lparr>AllLatencies := lat, LatencyPercentiles := m\<rparr>
        \<and> (if 0 < slen lat \<and> cfg_LatencyPercentiles cfg \<noteq> []
           then percentile_loop h lat (cfg_LatencyPercentiles cfg) Map.empty = (h', Inr m)
           else m = LatencyPercentiles r1)"
        by simp
      then show ?thesis by blast
    qed
  next
    case False
    have "r = r1\<lparr>AllLatencies := lat\<rparr>"
      using assms False by (simp add: aggregate_def Let_def r1 split: if_splits)
    then have "r = r1\<lparr>AllLatencies := lat, LatencyPercentiles := LatencyPercentiles r1\<rparr>" by simp
    with False r1 have "rates v d (totals n v d result) = Inr r1
        \<and> r = r1\<lparr>AllLatencies := lat, LatencyPercentiles := LatencyPercentiles r1\<rparr>
        \<and> (if 0 < slen lat \<and> cfg_LatencyPercentiles cfg \<noteq> []
           then percentile_loop h lat (cfg_LatencyPercentiles cfg) Map.empty
                  = (h', Inr (LatencyPercentiles r1))
           else LatencyPercentiles r1 = LatencyPercentiles r1)"
      by auto
    then show ?thesis by blast
  qed
qed






lemma cell_returns:
  assumes "runTestWithConcurrency cfg sched d h c result = Some (h', Inr (r, err))"
  shows "err = None \<and> (\<exists>s0 s. cell_init c = Inr s0 \<and> run_events sched s0 = Some s \<and> drained s
      \<and> aggregate cfg (h @ [latencies (vars s)])
           \<lparr>ptr = length h, slen = length (latencies (vars s))\<rparr>
           (requestCount s) (vars s) d result = (h', Inr r))"
proof -
  obtain s0 where s0: "cell_init c = Inr s0"
    using assms by (cases "cell_init c") (simp_all add: runTestWithConcurrency_def)
  obtain s where s: "run_events sched s0 = Some s"
    using assms s0 by (cases "run_events sched s0") (simp_all add: runTestWithConcurrency_def)
  have dr: "drained s" using assms s0 s by (simp add: runTestWithConcurrency_def split: if_splits)
  obtain h1 x where a: "aggregate cfg (h @ [latencies (vars s)])
           \<lparr>ptr = length h, slen = length (latencies (vars s))\<rparr>
           (requestCount s) (vars s) d result = (h1, x)"
    by (cases "aggregate cfg (h @ [latencies (vars s)])
           \<lparr>ptr = length h, slen = length (latencies (vars s))\<rparr>
           (requestCount s) (vars s) d result")
  have "err = None \<and> h1 = h' \<and> x = Inr r"
    using assms s0 s dr a by (cases x) (simp_all add: runTestWithConcurrency_def Let_def)
  with s0 s dr a show ?thesis by blast
qed


lemma drained_cell:
  assumes "cell_init c = Inr s0" and "run_events sched s0 = Some s" and "drained s"
  shows "requestCount s = int (pushes sched)" and "takes sched = pushes sched"
    and "records sched = pushes sched"
    and "successCount (vars s) + failedCount (vars s) = int (pushes sched)"
    and "0 \<le> successCount (vars s)" and "0 \<le> failedCount (vars s)"
    and "length (latencies (vars s)) = pushes sched"
proof -
  have inv: "cell_inv (0 + pushes sched) (0 + takes sched) (0 + records sched) s"
    using assms(2) cell_init_inv [OF assms(1)] by (rule run_events_inv)
  from drained_counts [OF inv assms(3)]
  have c: "int (pushes sched) = requestCount s" "takes sched = pushes sched" "records sched = pushes sched"
    by simp_all
  show "requestCount s = int (pushes sched)" "takes sched = pushes sched" "records sched = pushes sched"
    using c by simp_all
  show "successCount (vars s) + failedCount (vars s) = int (pushes sched)"
    "0 \<le> successCount (vars s)" "0 \<le> failedCount (vars s)"
    "length (latencies (vars s)) = pushes sched"
    using inv c by (simp_all add: cell_inv_def)
qed


lemma replicate_two: "replicate 2 x = [x, x]"
  by (simp add: numeral_2_eq_2)

lemma percentile_index_two:
  "0 \<le> p \<Longrightarrow> p \<le> 100 \<Longrightarrow> percentile_index (Suc (Suc 0)) p = Inr (p div 100)"
  using percentile_index_exact [of "Suc (Suc 0)" p] by simp

lemmas cell_eval = runTestWithConcurrency_def drained_def cell_init_def worker_at_def sem_held_def
  record_outcome_def shared_init_def replicate_two percentile_index_two eval_simps

text \<open>
  C1. For every cell that \<^verbatim>\<open>runTestWithConcurrency\<close> runs to its end, whatever the
  interleaving: once \<^verbatim>\<open>jobs\<close> is closed and all workers have exited, every token sent to
  \<^verbatim>\<open>jobs\<close> was received by one worker iteration (as many receives as sends) and recorded
  as one outcome (as many recorded outcomes as sends, each incrementing one of
  \<^verbatim>\<open>successCount\<close> and \<^verbatim>\<open>failedCount\<close>); \<^verbatim>\<open>TotalRequests\<close> grows by the number of tokens sent and
  the sum of \<^verbatim>\<open>SuccessRequests\<close> and \<^verbatim>\<open>FailedRequests\<close> by the same number. The function adds
  to the fields of the result object it is given, so the two agree after the call when
  they agreed before, as they do for the fresh object \<^verbatim>\<open>Run\<close> passes.
\<close>

theorem requests_reconcile:
  assumes "runTestWithConcurrency cfg sched d h c result = Some (h', Inr (r, err))"
  shows "TotalRequests r = TotalRequests result + int (pushes sched)
    \<and> takes sched = pushes sched \<and> records sched = pushes sched
    \<and> SuccessRequests r + FailedRequests r
        = SuccessRequests result + FailedRequests result + int (pushes sched)
    \<and> (SuccessRequests result + FailedRequests result = TotalRequests result
        \<longrightarrow> SuccessRequests r + FailedRequests r = TotalRequests r)"
proof -
  from cell_returns [OF assms] obtain s0 s where
    run: "cell_init c = Inr s0" "run_events sched s0 = Some s" "drained s" and
    agg: "aggregate cfg (h @ [latencies (vars s)])
           \<lparr>ptr = length h, slen = length (latencies (vars s))\<rparr>
           (requestCount s) (vars s) d result = (h', Inr r)"
    by blast
  from aggregate_Inr [OF agg] obtain r1 m where
    r1: "rates (vars s) d (totals (requestCount s) (vars s) d result) = Inr r1"
    and r: "r = r1\<lparr>AllLatencies := \<lparr>ptr = length h, slen = length (latencies (vars s))\<rparr>,
                 LatencyPercentiles := m\<rparr>"
    by blast
  note kept = rates_kept [OF r1]
  note dc = drained_cell [OF run]
  have t: "TotalRequests r = TotalRequests result + int (pushes sched)"
    by (simp add: r kept(1) totals_fields(1) dc(1))
  have "SuccessRequests r + FailedRequests r
        = SuccessRequests result + FailedRequests result
          + (successCount (vars s) + failedCount (vars s))"
    by (simp add: r kept(2,3) totals_fields(2,3))
  then have sf: "SuccessRequests r + FailedRequests r
        = SuccessRequests result + FailedRequests result + int (pushes sched)"
    by (simp only: dc(4))
  show ?thesis using t sf dc(2,3) by simp
qed

theorem requests_reconcile_witness:
  "(case runTestWithConcurrency
     \<lparr>Concurrency = 2, Duration = 1000000000, WarmupDuration = 0,
      RequestTimeout = 30000000000, ConcurrencyLevels = [], ShowProgress = False,
      MaxRetries = 0, cfg_LatencyPercentiles = [50, 99]\<rparr>
     [Push, Count, Push, Count, Take 0, Take (Suc 0), Acquire 0, Acquire (Suc 0),
      Return (Suc 0) (Inl ''timeout'') 7, Return 0 (Inr \<lparr>resp_InputTokens = 3, resp_OutputTokens = 4\<rparr>) 5,
      Record 0, Record (Suc 0), Release 0, Release (Suc 0), Timeout, Exit 0, Exit (Suc 0)]
     1000000000 [] 2 (new_TestResult ''m'' 2) of
      Some (h', Inr (r, err)) \<Rightarrow> TotalRequests r = 2 \<and> SuccessRequests r + FailedRequests r = 2
    | _ \<Rightarrow> False)
   \<and> pushes [Push, Count, Push, Count, Take 0, Take (Suc 0), Acquire 0, Acquire (Suc 0),
      Return (Suc 0) (Inl ''timeout'') 7, Return 0 (Inr \<lparr>resp_InputTokens = 3, resp_OutputTokens = 4\<rparr>) 5,
      Record 0, Record (Suc 0), Release 0, Release (Suc 0), Timeout, Exit 0, Exit (Suc 0)] = 2
   \<and> takes [Push, Count, Push, Count, Take 0, Take (Suc 0), Acquire 0, Acquire (Suc 0),
      Return (Suc 0) (Inl ''timeout'') 7, Return 0 (Inr \<lparr>resp_InputTokens = 3, resp_OutputTokens = 4\<rparr>) 5,
      Record 0, Record (Suc 0), Release 0, Release (Suc 0), Timeout, Exit 0, Exit (Suc 0)] = 2
   \<and> records [Push, Count, Push, Count, Take 0, Take (Suc 0), Acquire 0, Acquire (Suc 0),
      Return (Suc 0) (Inl ''timeout'') 7, Return 0 (Inr \<lparr>resp_InputTokens = 3, resp_OutputTokens = 4\<rparr>) 5,
      Record 0, Record (Suc 0), Release 0, Release (Suc 0), Timeout, Exit 0, Exit (Suc 0)] = 2"
proof -
  have "\<exists>h' r. runTestWithConcurrency
     \<lparr>Concurrency = 2, Duration = 1000000000, WarmupDuration = 0,
      RequestTimeout = 30000000000, ConcurrencyLevels = [], ShowProgress = False,
      MaxRetries = 0, cfg_LatencyPercentiles = [50, 99]\<rparr>
     [Push, Count, Push, Count, Take 0, Take (Suc 0), Acquire 0, Acquire (Suc 0),
      Return (Suc 0) (Inl ''timeout'') 7, Return 0 (Inr \<lparr>resp_InputTokens = 3, resp_OutputTokens = 4\<rparr>) 5,
      Record 0, Record (Suc 0), Release 0, Release (Suc 0), Timeout, Exit 0, Exit (Suc 0)]
     1000000000 [] 2 (new_TestResult ''m'' 2) = Some (h', Inr (r, None))"
    by (simp add: cell_eval)
  then obtain h' r where c: "runTestWithConcurrency
     \<lparr>Concurrency = 2, Duration = 1000000000, WarmupDuration = 0,
      RequestTimeout = 30000000000, ConcurrencyLevels = [], ShowProgress = False,
      MaxRetries = 0, cfg_LatencyPercentiles = [50, 99]\<rparr>
     [Push, Count, Push, Count, Take 0, Take (Suc 0), Acquire 0, Acquire (Suc 0),
      Return (Suc 0) (Inl ''timeout'') 7, Return 0 (Inr \<lparr>resp_InputTokens = 3, resp_OutputTokens = 4\<rparr>) 5,
      Record 0, Record (Suc 0), Release 0, Release (Suc 0), Timeout, Exit 0, Exit (Suc 0)]
     1000000000 [] 2 (new_TestResult ''m'' 2) = Some (h', Inr (r, None))"
    by blast
  from requests_reconcile [OF c] show ?thesis
    using c by (simp add: pushes_def takes_def records_def new_TestResult_def)
qed




text \<open>
  The accuracy of the rates. A value in the normal range of binary64 is rounded with a
  relative error of at most \<open>2 ^ -53\<close>; the seconds of a positive duration are within
  three such errors of the exact quotient by \<open>10 ^ 9\<close>, and the rate of a count below
  \<open>2 ^ 53\<close> over a positive duration is within \<open>2 ^ -50\<close>, relatively, of the exact rate.
\<close>

lemma ilog2_upper: assumes "0 < x" shows "x < 2 powi (ilog2 x + 1)"
proof (cases "1 \<le> x")
  case True
  then have pos: "0 < \<lfloor>x\<rfloor>" by simp
  from bitlen_bounds [OF pos] have "\<lfloor>x\<rfloor> + 1 \<le> 2 ^ nat (bitlen \<lfloor>x\<rfloor>)" by simp
  then have "(of_int (\<lfloor>x\<rfloor> + 1) :: rat) \<le> of_int (2 ^ nat (bitlen \<lfloor>x\<rfloor>))"
    by (simp only: of_int_le_iff)
  moreover have "x < of_int (\<lfloor>x\<rfloor> + 1)" by (rule floor_correct [THEN conjunct2])
  ultimately have "x < 2 ^ nat (bitlen \<lfloor>x\<rfloor>)" by simp
  moreover have "0 \<le> bitlen \<lfloor>x\<rfloor>" by (rule bitlen_nonneg)
  ultimately show ?thesis using True by (simp add: ilog2_def power_int_def)
next
  case False
  define k where "k = \<lceil>1 / x\<rceil> - 1"
  have "1 < 1 / x" using False assms by simp
  then have "1 < \<lceil>1 / x\<rceil>" by (simp add: less_ceiling_iff)
  then have pos: "0 < k" by (simp add: k_def)
  then have b1: "1 \<le> bitlen k" by (simp add: bitlen_alt_def)
  from bitlen_bounds [OF pos] have "2 ^ nat (bitlen k - 1) \<le> k" by simp
  then have "(of_int (2 ^ nat (bitlen k - 1)) :: rat) \<le> of_int k" by (simp only: of_int_le_iff)
  then have "(2::rat) ^ nat (bitlen k - 1) \<le> of_int k" by simp
  moreover have "of_int k < 1 / x" unfolding k_def by (simp add: ceiling_correct)
  ultimately have "2 ^ nat (bitlen k - 1) < 1 / x" by (rule le_less_trans)
  then have "x < 1 / 2 ^ nat (bitlen k - 1)" using assms by (simp add: field_simps)
  moreover have "(2::rat) powi (ilog2 x + 1) = 1 / 2 ^ nat (bitlen k - 1)"
  proof -
    have "ilog2 x + 1 = - (bitlen k - 1)" using False by (simp add: ilog2_def k_def)
    then have "(2::rat) powi (ilog2 x + 1) = 2 powi (- (bitlen k - 1))" by (simp only:)
    also have "\<dots> = 1 / 2 powi (bitlen k - 1)" by (rule power_int_minus_divide)
    also have "(2::rat) powi (bitlen k - 1) = 2 ^ nat (bitlen k - 1)"
      using b1 by (intro power_int_nonneg_exp) simp
    finally show ?thesis .
  qed
  ultimately show ?thesis by simp
qed

lemma rne_error: "\<bar>of_int (rne z) - z\<bar> \<le> 1 / 2"
proof -
  define d where "d = z - of_int \<lfloor>z\<rfloor>"
  have d: "0 \<le> d" "d < 1" unfolding d_def by linarith+
  have z: "z = of_int \<lfloor>z\<rfloor> + d" by (simp add: d_def)
  consider "d < 1 / 2" | "1 / 2 < d" | "d = 1 / 2" by linarith
  then show ?thesis
  proof cases
    case 1
    then have "rne z = \<lfloor>z\<rfloor>" by (simp add: rne_def d_def)
    then have "of_int (rne z) - z = - d" by (simp add: d_def)
    then show ?thesis using 1 d by (simp add: abs_if)
  next
    case 2
    then have "rne z = \<lfloor>z\<rfloor> + 1" by (simp add: rne_def d_def Let_def)
    then have "of_int (rne z) - z = 1 - d" by (simp add: d_def)
    then show ?thesis using 2 d by (simp add: abs_if)
  next
    case 3
    then have "rne z = \<lfloor>z\<rfloor> \<or> rne z = \<lfloor>z\<rfloor> + 1" by (simp add: rne_def d_def Let_def)
    then have "of_int (rne z) - z = - d \<or> of_int (rne z) - z = 1 - d" by (auto simp: d_def)
    then show ?thesis using 3 by (auto simp: abs_if)
  qed
qed

lemma f64_round_relative:
  assumes lo: "2 powi (- 1022) \<le> x" and hi: "x < 2 powi 1023"
  shows "\<exists>y. f64_round x = Finite y \<and> \<bar>y - x\<bar> \<le> x / 2 ^ 53"
proof -
  have xpos: "0 < x" using lo by (rule less_le_trans [rotated]) simp
  define e where "e = max (ilog2 \<bar>x\<bar>) (- 1022)"
  define u :: rat where "u = 2 powi (e - 52)"
  define y where "y = u * of_int (rne (x / u))"
  have "- 1022 \<le> ilog2 x"
  proof (rule ccontr)
    assume "\<not> - 1022 \<le> ilog2 x"
    then have "ilog2 x + 1 \<le> - 1022" by simp
    then have "(2::rat) powi (ilog2 x + 1) \<le> 2 powi (- 1022)" by (intro power_int_increasing) simp_all
    with ilog2_upper [OF xpos] lo show False by linarith
  qed
  then have e: "e = ilog2 x" using xpos by (simp add: e_def)
  have upos: "0 < u" by (simp add: u_def)
  have "u = 2 powi ilog2 x * 2 powi (- 52)" unfolding u_def e by (simp add: power_int_diff)
  also have "\<dots> \<le> x * 2 powi (- 52)" using ilog2_le [OF xpos] by (intro mult_right_mono) simp_all
  finally have ux: "u \<le> x / 2 ^ 52" by (simp add: power_int_minus inverse_eq_divide)
  have "y - x = u * (of_int (rne (x / u)) - x / u)" using upos by (simp add: y_def field_simps)
  then have "\<bar>y - x\<bar> = u * \<bar>of_int (rne (x / u)) - x / u\<bar>" using upos by (simp add: abs_mult)
  also have "\<dots> \<le> u * (1 / 2)" using upos rne_error [of "x / u"] by (intro mult_left_mono) simp_all
  also have "\<dots> \<le> (x / 2 ^ 52) * (1 / 2)" using ux by simp
  finally have err: "\<bar>y - x\<bar> \<le> x / 2 ^ 53" by simp
  have "x / 2 ^ 53 \<le> x" using xpos by (simp add: field_simps)
  with err have "\<bar>y\<bar> \<le> 2 * x" using xpos by linarith
  also have "\<dots> < 2 * 2 powi 1023" using hi by simp
  finally have "\<bar>y\<bar> < 2 powi 1024" by simp
  then have "f64_round x = Finite y" using xpos
    unfolding f64_round_def Let_def e_def [symmetric] u_def [symmetric] y_def [symmetric]
    by simp
  with err show ?thesis by blast
qed

lemma f64_round_relative':
  assumes "1 / 2 ^ 64 \<le> x" and "x < 2 ^ 200"
  shows "\<exists>y. f64_round x = Finite y \<and> \<bar>y - x\<bar> \<le> x / 2 ^ 53"
proof (rule f64_round_relative)
  have "(2::rat) powi (- 1022) \<le> 2 powi (- 64)" by (intro power_int_increasing) simp_all
  also have "\<dots> = 1 / 2 ^ 64" by (simp add: power_int_minus inverse_eq_divide)
  finally show "2 powi (- 1022) \<le> x" using assms(1) by linarith
  have "(2::rat) powi 200 \<le> 2 powi 1023" by (intro power_int_increasing) simp_all
  then show "x < 2 powi 1023" using assms(2) by simp
qed

lemma Seconds_accuracy:
  assumes "0 < d" and "d < 2 ^ 63"
  shows "\<exists>T. Seconds d = Finite T
    \<and> \<bar>T - of_int d / 1000000000\<bar> \<le> 3 * (of_int d / 1000000000) / 2 ^ 53"
proof -
  define sec where "sec = d div 1000000000"
  define nsec where "nsec = d mod 1000000000"
  define t :: rat where "t = of_int d / 1000000000"
  define v :: rat where "v = of_int nsec / 1000000000"
  have q: "tquot d 1000000000 = sec" using assms(1) by (simp add: tquot_def sec_def)
  have r: "trem d 1000000000 = nsec"
    using assms(1) by (simp add: trem_def tquot_def nsec_def minus_mult_div_eq_mod)
  have sec: "0 \<le> sec" "sec < 2 ^ 34" using assms by (simp_all add: sec_def)
  have nsec: "0 \<le> nsec" "nsec < 1000000000" by (simp_all add: nsec_def)
  have "d = sec * 1000000000 + nsec" by (simp add: sec_def nsec_def)
  then have "(of_int d :: rat) = of_int (sec * 1000000000 + nsec)" by (simp only:)
  then have t: "t = of_int sec + v" by (simp add: t_def v_def)
  have tpos: "0 < t" using assms(1) by (simp add: t_def)
  have v0: "0 \<le> v" using nsec by (simp add: v_def)
  have vt: "v \<le> t" using sec by (simp add: t)
  have fsec: "f64_of_int sec = Finite (of_int sec)"
    unfolding f64_of_int_def using sec by (intro f64_round_int) simp
  have fnsec: "f64_of_int nsec = Finite (of_int nsec)"
    unfolding f64_of_int_def using nsec by (intro f64_round_int) simp
  have "\<exists>a. f64_round v = Finite a \<and> \<bar>a - v\<bar> \<le> v / 2 ^ 53"
  proof (cases "nsec = 0")
    case True
    then show ?thesis by (simp add: v_def f64_round_def)
  next
    case False
    with nsec have "1 \<le> nsec" by simp
    then have "(of_int 1 :: rat) \<le> of_int nsec" by (simp only: of_int_le_iff)
    then have "1 / 1000000000 \<le> v" by (simp add: v_def)
    then have lo: "1 / 2 ^ 64 \<le> v" by simp
    have "(of_int nsec :: rat) < of_int 1000000000" using nsec by (simp only: of_int_less_iff)
    then have "v < 1" by (simp add: v_def)
    then have hi: "v < 2 ^ 200" by simp
    from lo hi show ?thesis by (rule f64_round_relative')
  qed
  then obtain a where a: "f64_round v = Finite a" "\<bar>a - v\<bar> \<le> v / 2 ^ 53" by blast
  have "v / 2 ^ 53 \<le> v / 2" using v0 by (simp add: field_simps)
  with a(2) have a_lo: "v / 2 \<le> a" and a_hi: "a \<le> 2 * v" using v0 by linarith+
  define s where "s = of_int sec + a"
  have st: "\<bar>s - t\<bar> \<le> t / 2 ^ 53"
  proof -
    have "\<bar>s - t\<bar> = \<bar>a - v\<bar>" by (simp add: s_def t)
    also have "\<dots> \<le> v / 2 ^ 53" by (rule a(2))
    also have "\<dots> \<le> t / 2 ^ 53" using vt by (simp add: divide_right_mono)
    finally show ?thesis .
  qed
  have "t / 2 ^ 53 \<le> t / 2" using tpos by (simp add: field_simps)
  with st have s_lo: "t / 2 \<le> s" and s_hi: "s \<le> 2 * t" using tpos by linarith+
  have "(of_int 1 :: rat) \<le> of_int d" using assms(1) by simp
  then have "1 / 1000000000 \<le> t" by (simp add: t_def)
  with s_lo have "1 / 2000000000 \<le> s" by simp
  then have lo: "1 / 2 ^ 64 \<le> s" by simp
  have "(of_int d :: rat) < of_int (2 ^ 63)" using assms(2) by (simp only: of_int_less_iff)
  then have "t < 2 ^ 63" by (simp add: t_def)
  with s_hi have "s < 2 ^ 64" by simp
  then have hi: "s < 2 ^ 200" by simp
  from f64_round_relative' [OF lo hi] obtain T where
    T: "f64_round s = Finite T" "\<bar>T - s\<bar> \<le> s / 2 ^ 53" by blast
  have "Seconds d = Finite T"
    by (simp add: Seconds_def q r fsec fnsec a(1) [unfolded v_def] T(1) [unfolded s_def])
  moreover have "\<bar>T - t\<bar> \<le> 3 * t / 2 ^ 53"
  proof -
    have b: "s / 2 ^ 53 \<le> 2 * t / 2 ^ 53" using s_hi by (simp add: divide_right_mono)
    have "\<bar>T - t\<bar> \<le> \<bar>T - s\<bar> + \<bar>s - t\<bar>" by linarith
    also have "\<dots> \<le> s / 2 ^ 53 + t / 2 ^ 53" using T(2) st by (rule add_mono)
    also have "\<dots> \<le> 2 * t / 2 ^ 53 + t / 2 ^ 53" using b by (rule add_right_mono)
    also have "\<dots> = 3 * t / 2 ^ 53" by simp
    finally show ?thesis .
  qed
  ultimately show ?thesis unfolding t_def by blast
qed

lemma rate_accuracy:
  assumes "0 \<le> n" and "n < 2 ^ 53" and "0 < d" and "d < 2 ^ 63"
  shows "\<exists>q. f64_div (f64_of_int n) (Seconds d) = Finite q
    \<and> \<bar>q - of_int n / (of_int d / 1000000000)\<bar>
        \<le> of_int n / (of_int d / 1000000000) / 2 ^ 50"
proof -
  define t :: rat where "t = of_int d / 1000000000"
  from Seconds_accuracy [OF assms(3,4)] obtain T where
    T: "Seconds d = Finite T" "\<bar>T - t\<bar> \<le> 3 * t / 2 ^ 53"
    unfolding t_def by blast
  have tpos: "0 < t" using assms(3) by (simp add: t_def)
  have "3 * t / 2 ^ 53 \<le> t / 2" using tpos by (simp add: field_simps)
  with T(2) have T_lo: "t / 2 \<le> T" and T_hi: "T \<le> 2 * t" using tpos by linarith+
  have Tpos: "0 < T" using T_lo tpos by linarith
  have fn: "f64_of_int n = Finite (of_int n)"
    unfolding f64_of_int_def using assms(1,2) by (intro f64_round_int) simp
  show ?thesis
  proof (cases "n = 0")
    case True
    then show ?thesis using Tpos by (simp add: T(1) f64_of_int_def f64_round_def)
  next
    case False
    define x :: rat where "x = of_int n / T"
    define ex :: rat where "ex = of_int n / t"
    have npos: "0 < (of_int n :: rat)" using assms(1) False by simp
    have xpos: "0 < x" using npos Tpos by (simp add: x_def)
    have expos: "0 < ex" using npos tpos by (simp add: ex_def)
    have x_ex: "x \<le> 2 * ex"
    proof -
      have "of_int n / T \<le> of_int n / (t / 2)"
        using T_lo tpos npos by (intro divide_left_mono) simp_all
      then show ?thesis by (simp add: x_def ex_def mult.commute)
    qed
    have "(of_int 1 :: rat) \<le> of_int n" using assms(1) False by simp
    then have n1: "(1::rat) \<le> of_int n" by simp
    have "(of_int n :: rat) < of_int (2 ^ 53)" using assms(2) by (simp only: of_int_less_iff)
    then have n53: "(of_int n :: rat) < 2 ^ 53" by simp
    have "(of_int 1 :: rat) \<le> of_int d" using assms(3) by simp
    then have t_lo: "1 / 1000000000 \<le> t" by (simp add: t_def)
    have "(of_int d :: rat) < of_int (2 ^ 63)" using assms(4) by (simp only: of_int_less_iff)
    then have t_hi: "t < 2 ^ 63" by (simp add: t_def)
    have lo: "1 / 2 ^ 64 \<le> x"
    proof -
      have "T < 2 ^ 64" using T_hi t_hi by simp
      then have "1 / 2 ^ 64 \<le> 1 / T" using Tpos by (simp add: field_simps)
      also have "\<dots> \<le> of_int n / T" using n1 Tpos by (simp add: divide_right_mono)
      finally show ?thesis by (simp add: x_def)
    qed
    have hi: "x < 2 ^ 200"
    proof -
      have "ex = of_int n * (1 / t)" by (simp add: ex_def)
      also have "\<dots> \<le> of_int n * 1000000000"
        using t_lo tpos npos by (intro mult_left_mono) (simp_all add: field_simps)
      also have "\<dots> < 2 ^ 53 * 1000000000" using n53 by simp
      finally have "ex < 2 ^ 53 * 2 ^ 30" by simp
      with x_ex have "x < 2 * (2 ^ 53 * 2 ^ 30)" by simp
      then show ?thesis by simp
    qed
    from f64_round_relative' [OF lo hi] obtain q where
      q: "f64_round x = Finite q" "\<bar>q - x\<bar> \<le> x / 2 ^ 53" by blast
    have res: "f64_div (f64_of_int n) (Seconds d) = Finite q"
      using Tpos by (simp add: fn T(1) q(1) [unfolded x_def])
    have "x - ex = x * ((t - T) / t)" using Tpos tpos by (simp add: x_def ex_def field_simps)
    then have "\<bar>x - ex\<bar> = x * (\<bar>t - T\<bar> / t)" using xpos tpos by (simp add: abs_mult)
    also have "\<bar>t - T\<bar> / t \<le> 3 / 2 ^ 53"
    proof -
      have "\<bar>t - T\<bar> \<le> 3 * t / 2 ^ 53" using T(2) by (simp add: abs_minus_commute)
      then have "\<bar>t - T\<bar> / t \<le> (3 * t / 2 ^ 53) / t" using tpos by (intro divide_right_mono) simp_all
      then show ?thesis using tpos by simp
    qed
    finally have "\<bar>x - ex\<bar> \<le> x * (3 / 2 ^ 53)" using xpos by (simp add: mult_left_mono)
    with q(2) have "\<bar>q - ex\<bar> \<le> x / 2 ^ 53 + x * (3 / 2 ^ 53)" by linarith
    also have "\<dots> = x * 4 / 2 ^ 53" by (simp add: field_simps)
    also have "\<dots> \<le> (2 * ex) * 4 / 2 ^ 53" using x_ex by (simp add: divide_right_mono)
    also have "\<dots> = ex / 2 ^ 50" by simp
    finally have "\<bar>q - ex\<bar> \<le> ex / 2 ^ 50" .
    with res show ?thesis unfolding ex_def t_def by blast
  qed
qed

text \<open>
  C6. For every cell with at least one successful request, \<^verbatim>\<open>RequestsPerSec\<close> is the
  binary64 quotient of \<^verbatim>\<open>SuccessRequests\<close> by the elapsed seconds of the cell
  (\<^verbatim>\<open>totalDuration.Seconds()\<close>, where \<^verbatim>\<open>totalDuration\<close> is the elapsed time stored in
  \<^verbatim>\<open>TotalDuration\<close>), and \<^verbatim>\<open>TokensPerSec\<close> is the quotient of \<^verbatim>\<open>TotalTokens\<close> by the same
  seconds. For a positive elapsed time and counts below \<open>2 ^ 53\<close> both are finite and
  differ from the exact quotients, count divided by nanoseconds over \<open>10 ^ 9\<close>, by at most
  the fraction \<open>2 ^ -50\<close> of them. With no successful request, \<^verbatim>\<open>RequestsPerSec\<close>,
  \<^verbatim>\<open>TokensPerSec\<close>, \<^verbatim>\<open>AvgLatency\<close> and the three token averages stay 0. The result object is
  the fresh one of \<^verbatim>\<open>Run\<close>.
\<close>

theorem cell_rates:
  assumes "runTestWithConcurrency cfg sched d h c (new_TestResult name c) = Some (h', Inr (r, err))"
  shows "TotalDuration r = d
    \<and> (0 < SuccessRequests r \<longrightarrow>
          RequestsPerSec r = f64_div (f64_of_int (SuccessRequests r)) (Seconds d)
        \<and> TokensPerSec r = f64_div (f64_of_int (TotalTokens r)) (Seconds d))
    \<and> (0 < SuccessRequests r \<and> SuccessRequests r < 2 ^ 53 \<and> 0 < d \<and> d < 2 ^ 63 \<longrightarrow>
          (\<exists>q. RequestsPerSec r = Finite q
             \<and> \<bar>q - of_int (SuccessRequests r) / (of_int d / 1000000000)\<bar>
                 \<le> of_int (SuccessRequests r) / (of_int d / 1000000000) / 2 ^ 50))
    \<and> (0 < SuccessRequests r \<and> 0 \<le> TotalTokens r \<and> TotalTokens r < 2 ^ 53
        \<and> 0 < d \<and> d < 2 ^ 63 \<longrightarrow>
          (\<exists>q. TokensPerSec r = Finite q
             \<and> \<bar>q - of_int (TotalTokens r) / (of_int d / 1000000000)\<bar>
                 \<le> of_int (TotalTokens r) / (of_int d / 1000000000) / 2 ^ 50))
    \<and> (SuccessRequests r = 0 \<longrightarrow>
          RequestsPerSec r = Finite 0 \<and> TokensPerSec r = Finite 0 \<and> AvgLatency r = 0
        \<and> AvgInputTokens r = Finite 0 \<and> AvgOutputTokens r = Finite 0
        \<and> AvgTotalTokens r = Finite 0)"
proof -
  define result where "result = new_TestResult name c"
  have c: "runTestWithConcurrency cfg sched d h c result = Some (h', Inr (r, err))"
    using assms by (simp add: result_def)
  from cell_returns [OF c] obtain s0 s where
    run: "cell_init c = Inr s0" "run_events sched s0 = Some s" "drained s" and
    agg: "aggregate cfg (h @ [latencies (vars s)])
           \<lparr>ptr = length h, slen = length (latencies (vars s))\<rparr>
           (requestCount s) (vars s) d result = (h', Inr r)"
    by blast
  from aggregate_Inr [OF agg] obtain r1 m where
    r1: "rates (vars s) d (totals (requestCount s) (vars s) d result) = Inr r1"
    and r: "r = r1\<lparr>AllLatencies := \<lparr>ptr = length h, slen = length (latencies (vars s))\<rparr>,
                 LatencyPercentiles := m\<rparr>"
    by blast
  note kept = rates_kept [OF r1]
  have sr: "SuccessRequests r = successCount (vars s)"
    by (simp add: r kept(2) totals_fields(2) result_def new_TestResult_def)
  have td: "TotalDuration r = d"
    by (simp add: r kept(4) totals_fields(4) result_def new_TestResult_def)
  have pos: "RequestsPerSec r = f64_div (f64_of_int (SuccessRequests r)) (Seconds d)
        \<and> TokensPerSec r = f64_div (f64_of_int (TotalTokens r)) (Seconds d)"
    if "0 < SuccessRequests r"
  proof -
    from that have "0 < successCount (vars s)" by (simp add: sr)
    from rates_pos [OF this r1] show ?thesis by (simp add: r)
  qed
  have zero: "RequestsPerSec r = Finite 0 \<and> TokensPerSec r = Finite 0 \<and> AvgLatency r = 0
        \<and> AvgInputTokens r = Finite 0 \<and> AvgOutputTokens r = Finite 0
        \<and> AvgTotalTokens r = Finite 0"
    if "SuccessRequests r = 0"
  proof -
    from that have "successCount (vars s) = 0" by (simp add: sr)
    from rates_zero [OF this, of d "totals (requestCount s) (vars s) d result"] r1
    have "r1 = totals (requestCount s) (vars s) d result" by simp
    then show ?thesis by (simp add: r totals_fields result_def new_TestResult_def)
  qed
  have acc1: "\<exists>q. RequestsPerSec r = Finite q
             \<and> \<bar>q - of_int (SuccessRequests r) / (of_int d / 1000000000)\<bar>
                 \<le> of_int (SuccessRequests r) / (of_int d / 1000000000) / 2 ^ 50"
    if h: "0 < SuccessRequests r \<and> SuccessRequests r < 2 ^ 53 \<and> 0 < d \<and> d < 2 ^ 63"
  proof -
    from h pos have "RequestsPerSec r = f64_div (f64_of_int (SuccessRequests r)) (Seconds d)"
      by simp
    moreover from h have "0 \<le> SuccessRequests r" "SuccessRequests r < 2 ^ 53" "0 < d" "d < 2 ^ 63"
      by simp_all
    from rate_accuracy [OF this]
    have "\<exists>q. f64_div (f64_of_int (SuccessRequests r)) (Seconds d) = Finite q
      \<and> \<bar>q - of_int (SuccessRequests r) / (of_int d / 1000000000)\<bar>
          \<le> of_int (SuccessRequests r) / (of_int d / 1000000000) / 2 ^ 50" .
    ultimately show ?thesis by (simp only:)
  qed
  have acc2: "\<exists>q. TokensPerSec r = Finite q
             \<and> \<bar>q - of_int (TotalTokens r) / (of_int d / 1000000000)\<bar>
                 \<le> of_int (TotalTokens r) / (of_int d / 1000000000) / 2 ^ 50"
    if h: "0 < SuccessRequests r \<and> 0 \<le> TotalTokens r \<and> TotalTokens r < 2 ^ 53
        \<and> 0 < d \<and> d < 2 ^ 63"
  proof -
    from h pos have "TokensPerSec r = f64_div (f64_of_int (TotalTokens r)) (Seconds d)"
      by simp
    moreover from h have "0 \<le> TotalTokens r" "TotalTokens r < 2 ^ 53" "0 < d" "d < 2 ^ 63"
      by simp_all
    from rate_accuracy [OF this]
    have "\<exists>q. f64_div (f64_of_int (TotalTokens r)) (Seconds d) = Finite q
      \<and> \<bar>q - of_int (TotalTokens r) / (of_int d / 1000000000)\<bar>
          \<le> of_int (TotalTokens r) / (of_int d / 1000000000) / 2 ^ 50" .
    ultimately show ?thesis by (simp only:)
  qed
  from td pos zero acc1 acc2 show ?thesis by blast
qed

theorem cell_rates_witness:
  "(case runTestWithConcurrency
     \<lparr>Concurrency = 2, Duration = 1000000000, WarmupDuration = 0,
      RequestTimeout = 30000000000, ConcurrencyLevels = [], ShowProgress = False,
      MaxRetries = 0, cfg_LatencyPercentiles = [50, 99]\<rparr>
     [Push, Count, Push, Count, Take 0, Acquire 0, Return 0 (Inr \<lparr>resp_InputTokens = 3, resp_OutputTokens = 4\<rparr>) 5, Record 0, Release 0,
      Take 0, Acquire 0, Return 0 (Inr \<lparr>resp_InputTokens = 1, resp_OutputTokens = 2\<rparr>) 9, Record 0, Release 0, Timeout, Exit 0]
     2000000000 [] 1 (new_TestResult ''m'' 1) of
      Some (h', Inr (r, err)) \<Rightarrow>
        SuccessRequests r = 2 \<and> TotalTokens r = 10 \<and> TotalDuration r = 2000000000
        \<and> RequestsPerSec r = Finite 1 \<and> TokensPerSec r = Finite 5
    | _ \<Rightarrow> False)
   \<and> (case runTestWithConcurrency
     \<lparr>Concurrency = 2, Duration = 1000000000, WarmupDuration = 0,
      RequestTimeout = 30000000000, ConcurrencyLevels = [], ShowProgress = False,
      MaxRetries = 0, cfg_LatencyPercentiles = [50, 99]\<rparr>
     [Push, Count, Take 0, Acquire 0, Return 0 (Inl ''timeout'') 7, Record 0, Release 0,
      Timeout, Exit 0]
     1000000000 [] 1 (new_TestResult ''m'' 1) of
      Some (h', Inr (r, err)) \<Rightarrow>
        SuccessRequests r = 0 \<and> RequestsPerSec r = Finite 0 \<and> AvgLatency r = 0
        \<and> AvgInputTokens r = Finite 0 \<and> AvgOutputTokens r = Finite 0
        \<and> AvgTotalTokens r = Finite 0
    | _ \<Rightarrow> False)"
proof -
  have "\<exists>h' r. runTestWithConcurrency
     \<lparr>Concurrency = 2, Duration = 1000000000, WarmupDuration = 0,
      RequestTimeout = 30000000000, ConcurrencyLevels = [], ShowProgress = False,
      MaxRetries = 0, cfg_LatencyPercentiles = [50, 99]\<rparr>
     [Push, Count, Push, Count, Take 0, Acquire 0, Return 0 (Inr \<lparr>resp_InputTokens = 3, resp_OutputTokens = 4\<rparr>) 5, Record 0, Release 0,
      Take 0, Acquire 0, Return 0 (Inr \<lparr>resp_InputTokens = 1, resp_OutputTokens = 2\<rparr>) 9, Record 0, Release 0, Timeout, Exit 0]
     2000000000 [] 1 (new_TestResult ''m'' 1) = Some (h', Inr (r, None))
      \<and> SuccessRequests r = 2 \<and> TotalTokens r = 10"
    by (simp add: cell_eval)
  then obtain h' r where c: "runTestWithConcurrency
     \<lparr>Concurrency = 2, Duration = 1000000000, WarmupDuration = 0,
      RequestTimeout = 30000000000, ConcurrencyLevels = [], ShowProgress = False,
      MaxRetries = 0, cfg_LatencyPercentiles = [50, 99]\<rparr>
     [Push, Count, Push, Count, Take 0, Acquire 0, Return 0 (Inr \<lparr>resp_InputTokens = 3, resp_OutputTokens = 4\<rparr>) 5, Record 0, Release 0,
      Take 0, Acquire 0, Return 0 (Inr \<lparr>resp_InputTokens = 1, resp_OutputTokens = 2\<rparr>) 9, Record 0, Release 0, Timeout, Exit 0]
     2000000000 [] 1 (new_TestResult ''m'' 1) = Some (h', Inr (r, None))"
    and f: "SuccessRequests r = 2" "TotalTokens r = 10"
    by blast
  have sec: "Seconds 2000000000 = Finite 2" by (simp add: eval_simps)
  from cell_rates [OF c] f
  have 1: "TotalDuration r = 2000000000 \<and> RequestsPerSec r = Finite 1 \<and> TokensPerSec r = Finite 5"
    by (simp add: sec eval_simps)
  have "\<exists>h' r. runTestWithConcurrency
     \<lparr>Concurrency = 2, Duration = 1000000000, WarmupDuration = 0,
      RequestTimeout = 30000000000, ConcurrencyLevels = [], ShowProgress = False,
      MaxRetries = 0, cfg_LatencyPercentiles = [50, 99]\<rparr>
     [Push, Count, Take 0, Acquire 0, Return 0 (Inl ''timeout'') 7, Record 0, Release 0,
      Timeout, Exit 0]
     1000000000 [] 1 (new_TestResult ''m'' 1) = Some (h', Inr (r, None))
      \<and> SuccessRequests r = 0"
    by (simp add: cell_eval)
  then obtain h2 r2 where c2: "runTestWithConcurrency
     \<lparr>Concurrency = 2, Duration = 1000000000, WarmupDuration = 0,
      RequestTimeout = 30000000000, ConcurrencyLevels = [], ShowProgress = False,
      MaxRetries = 0, cfg_LatencyPercentiles = [50, 99]\<rparr>
     [Push, Count, Take 0, Acquire 0, Return 0 (Inl ''timeout'') 7, Record 0, Release 0,
      Timeout, Exit 0]
     1000000000 [] 1 (new_TestResult ''m'' 1) = Some (h2, Inr (r2, None))"
    and f2: "SuccessRequests r2 = 0"
    by blast
  from cell_rates [OF c2] f2
  have 2: "RequestsPerSec r2 = Finite 0 \<and> AvgLatency r2 = 0
        \<and> AvgInputTokens r2 = Finite 0 \<and> AvgOutputTokens r2 = Finite 0
        \<and> AvgTotalTokens r2 = Finite 0"
    by simp
  from c f 1 c2 f2 2 show ?thesis by simp
qed

subsection \<open>The matrix driver\<close>

lemma log_end_Cons:
  assumes "completed x" and "log_end fl tr cells"
  shows "log_end fl (x # tr) (cell_of x # cells)"
proof (cases fl)
  case Continue
  then show ?thesis using assms by (simp add: log_end_def)
next
  case (ReturnError msg)
  then show ?thesis using assms by (simp add: log_end_def)
next
  case (Panic p)
  then show ?thesis using assms by (simp add: log_end_def)
qed

lemma log_shape_Cons:
  assumes "completed x" and "log_shape fl tr cells"
  shows "log_shape fl (x # tr) (cell_of x # cells)"
proof -
  from assms(2) obtain rest where "map cell_of tr @ rest = cells" and e: "log_end fl tr cells"
    unfolding log_shape_def by blast
  then have "map cell_of (x # tr) @ rest = cell_of x # cells" by simp
  then have "\<exists>rest. map cell_of (x # tr) @ rest = cell_of x # cells" ..
  with log_end_Cons [OF assms(1) e] show ?thesis unfolding log_shape_def by blast
qed

lemma log_shape_append:
  assumes "log_shape Continue tr1 cells1" and "log_shape fl tr2 cells2"
  shows "log_shape fl (tr1 @ tr2) (cells1 @ cells2)"
  using assms
proof (induction tr1 arbitrary: cells1)
  case Nil
  then show ?case by (simp add: log_shape_def log_end_def)
next
  case (Cons x tr1)
  from Cons.prems(1) have x: "completed x" and c: "cells1 = cell_of x # map cell_of tr1"
    and r: "log_shape Continue tr1 (map cell_of tr1)"
    by (simp_all add: log_shape_def log_end_def)
  from log_shape_Cons [OF x Cons.IH [OF r Cons.prems(2)]] show ?case by (simp add: c)
qed

lemma log_end_more:
  assumes "fl \<noteq> Continue" and "log_end fl tr cells"
  shows "log_end fl tr cells'"
proof (cases fl)
  case Continue
  with assms(1) show ?thesis by simp
next
  case (ReturnError msg)
  then show ?thesis using assms(2) by (simp add: log_end_def)
next
  case (Panic p)
  then show ?thesis using assms(2) by (simp add: log_end_def)
qed

lemma log_shape_more:
  assumes "fl \<noteq> Continue" and "log_shape fl tr cells"
  shows "log_shape fl tr (cells @ extra)"
proof -
  from assms(2) obtain rest where "map cell_of tr @ rest = cells" and e: "log_end fl tr cells"
    unfolding log_shape_def by blast
  then have "map cell_of tr @ (rest @ extra) = cells @ extra" by simp
  then have "\<exists>rest. map cell_of tr @ rest = cells @ extra" ..
  with log_end_more [OF assms(1) e, of "cells @ extra"] show ?thesis unfolding log_shape_def by blast
qed

lemma log_shape_single:
  assumes "fl = ReturnError (Errorf n e) \<and> en = Errored e \<or> fl = Panic p \<and> en = Panicked p"
  shows "log_shape fl [(n, c, en)] ((n, c) # rest)"
  using assms by (auto simp: log_shape_def log_end_def cell_of_def)

lemma run_levels_shape:
  assumes "run_levels runCell mdl cs st = (fl, st')"
  shows "\<exists>tr. calls st' = calls st @ tr
    \<and> log_shape fl tr (map (\<lambda>c. (mdl_Name mdl, c)) cs)"
  using assms
proof (induction cs arbitrary: st)
  case Nil
  then show ?case by (simp add: log_shape_def log_end_def)
next
  case (Cons c cs)
  define name where "name = mdl_Name mdl"
  define key where "key = name @ ''-'' @ itoa c"
  obtain ret w where rc: "runCell mdl c (new_TestResult (mdl_Name mdl) c) (world st) = (ret, w)"
    by (cases "runCell mdl c (new_TestResult (mdl_Name mdl) c) (world st)")
  show ?case
  proof (cases ret)
    case (Inl p)
    then have "fl = Panic p \<and> calls st' = calls st @ [(name, c, Panicked p)]"
      using Cons.prems rc by (auto simp: Let_def name_def)
    moreover have "log_shape (Panic p) [(name, c, Panicked p)]
        (map (\<lambda>c. (mdl_Name mdl, c)) (c # cs))"
      using log_shape_single [of "Panic p" name undefined "Panicked p" p c] by (simp add: name_def)
    ultimately show ?thesis by blast
  next
    case (Inr pr)
    obtain result' eo where pr: "pr = (result', eo)" by (cases pr)
    show ?thesis
    proof (cases eo)
      case (Some err)
      then have "fl = ReturnError (Errorf name err)
          \<and> calls st' = calls st @ [(name, c, Errored err)]"
        using Cons.prems rc Inr pr by (auto simp: Let_def name_def)
      moreover have "log_shape (ReturnError (Errorf name err)) [(name, c, Errored err)]
          (map (\<lambda>c. (mdl_Name mdl, c)) (c # cs))"
        using log_shape_single [of "ReturnError (Errorf name err)" name err "Errored err" undefined c]
        by (simp add: name_def)
      ultimately show ?thesis by blast
    next
      case None
      define st2 where "st2 = st\<lparr>results_var := (results_var st)(key \<mapsto> result'),
                calls := calls st @ [(name, c, Completed)], world := w\<rparr>"
      have "run_levels runCell mdl cs st2 = (fl, st')"
        using Cons.prems rc Inr pr None by (simp add: Let_def st2_def name_def key_def)
      from Cons.IH [OF this] obtain tr where
        tr: "calls st' = calls st2 @ tr" "log_shape fl tr (map (\<lambda>c. (mdl_Name mdl, c)) cs)"
        by blast
      have "calls st' = calls st @ ((name, c, Completed) # tr)"
        using tr(1) by (simp add: st2_def)
      moreover have "log_shape fl ((name, c, Completed) # tr)
          (cell_of (name, c, Completed) # map (\<lambda>c. (mdl_Name mdl, c)) cs)"
        using tr(2) by (intro log_shape_Cons) (simp_all add: completed_def)
      then have "log_shape fl ((name, c, Completed) # tr) (map (\<lambda>c. (mdl_Name mdl, c)) (c # cs))"
        by (simp add: cell_of_def name_def)
      ultimately show ?thesis by blast
    qed
  qed
qed

lemma run_models_shape:
  assumes "run_models runCell cfg ms st = (fl, st')"
  shows "\<exists>tr. calls st' = calls st @ tr \<and> log_shape fl tr (spec_cells cfg ms)"
  using assms
proof (induction ms arbitrary: st)
  case Nil
  then show ?case by (simp add: log_shape_def log_end_def spec_cells_def)
next
  case (Cons mdl ms)
  obtain fl1 st1 where l: "run_levels runCell mdl (spec_levels cfg mdl) st = (fl1, st1)"
    by (cases "run_levels runCell mdl (spec_levels cfg mdl) st")
  have lv: "(if 0 < length (mdl_ConcurrencyLevels mdl) then mdl_ConcurrencyLevels mdl
             else if 0 < length (ConcurrencyLevels cfg) then ConcurrencyLevels cfg
             else [Concurrency cfg]) = spec_levels cfg mdl"
    by (simp add: spec_levels_def)
  have unf: "run_models runCell cfg (mdl # ms) st =
    (case (fl1, st1) of
       (Continue, st') \<Rightarrow> run_models runCell cfg ms st'
     | (ReturnError msg, st') \<Rightarrow> (ReturnError msg, st')
     | (Panic p, st') \<Rightarrow> (Panic p, st'))"
    by (simp only: run_models.simps Let_def lv l)
  from run_levels_shape [OF l] obtain tr1 where
    tr1: "calls st1 = calls st @ tr1"
      "log_shape fl1 tr1 (map (\<lambda>c. (mdl_Name mdl, c)) (spec_levels cfg mdl))"
    by blast
  have sc: "spec_cells cfg (mdl # ms)
      = map (\<lambda>c. (mdl_Name mdl, c)) (spec_levels cfg mdl) @ spec_cells cfg ms"
    by (simp add: spec_cells_def)
  show ?case
  proof (cases "fl1 = Continue")
    case True
    then have "run_models runCell cfg ms st1 = (fl, st')" using Cons.prems unf by simp
    from Cons.IH [OF this] obtain tr2 where
      tr2: "calls st' = calls st1 @ tr2" "log_shape fl tr2 (spec_cells cfg ms)"
      by blast
    have "calls st' = calls st @ (tr1 @ tr2)" using tr1(1) tr2(1) by simp
    moreover have "log_shape fl (tr1 @ tr2) (spec_cells cfg (mdl # ms))"
      unfolding sc using tr1(2) tr2(2) True by (intro log_shape_append) simp_all
    ultimately show ?thesis by blast
  next
    case False
    then have "fl = fl1 \<and> st' = st1" using Cons.prems unf by (cases fl1) simp_all
    then have "fl = fl1" "st' = st1" by simp_all
    moreover have "log_shape fl1 tr1 (spec_cells cfg (mdl # ms))"
      unfolding sc using False tr1(2) by (rule log_shape_more)
    ultimately show ?thesis using tr1(1) by blast
  qed
qed

lemma Run_shape:
  "\<exists>fl st. run_models runCell (config e) (models e)
             \<lparr>results_var = Map.empty, calls = [], world = w\<rparr> = (fl, st)
     \<and> cells_run (Run runCell e w) = calls st
     \<and> log_shape fl (calls st) (spec_cells (config e) (models e))
     \<and> (case fl of
          Continue \<Rightarrow> returned (Run runCell e w) = Inr (Some (results_var st), None)
        | ReturnError msg \<Rightarrow> returned (Run runCell e w) = Inr (None, Some msg)
                             \<and> engine (Run runCell e w) = e
        | Panic p \<Rightarrow> returned (Run runCell e w) = Inl p)"
proof -
  obtain fl st where r: "run_models runCell (config e) (models e)
             \<lparr>results_var = Map.empty, calls = [], world = w\<rparr> = (fl, st)"
    by (cases "run_models runCell (config e) (models e)
             \<lparr>results_var = Map.empty, calls = [], world = w\<rparr>")
  from run_models_shape [OF r] have "log_shape fl (calls st) (spec_cells (config e) (models e))"
    by simp
  moreover have "cells_run (Run runCell e w) = calls st"
    by (cases fl) (simp_all add: Run_def r)
  moreover have "case fl of
          Continue \<Rightarrow> returned (Run runCell e w) = Inr (Some (results_var st), None)
        | ReturnError msg \<Rightarrow> returned (Run runCell e w) = Inr (None, Some msg)
                             \<and> engine (Run runCell e w) = e
        | Panic p \<Rightarrow> returned (Run runCell e w) = Inl p"
    by (cases fl) (simp_all add: Run_def r)
  ultimately show ?thesis using r by blast
qed



lemma log_end_Continue:
  "log_shape Continue tr cells \<Longrightarrow> map cell_of tr = cells \<and> list_all completed tr"
  by (simp add: log_shape_def log_end_def)

lemma log_end_ReturnError:
  assumes "log_shape (ReturnError msg) tr cells"
  shows "tr \<noteq> [] \<and> list_all completed (butlast tr)
    \<and> (\<exists>e. snd (snd (last tr)) = Errored e \<and> msg = Errorf (fst (last tr)) e)"
  using assms by (simp add: log_shape_def log_end_def)

lemma log_end_Panic:
  assumes "log_shape (Panic p) tr cells"
  shows "tr \<noteq> [] \<and> list_all completed (butlast tr) \<and> snd (snd (last tr)) = Panicked p"
  using assms by (simp add: log_shape_def log_end_def)

lemma errored_is_last:
  assumes "tr \<noteq> []" and "list_all completed (butlast tr)" and "(n, c, Errored err) \<in> set tr"
  shows "last tr = (n, c, Errored err)"
proof -
  have "tr = butlast tr @ [last tr]" using assms(1) by simp
  then have "set tr = set (butlast tr) \<union> {last tr}"
    by (metis list.simps(15) set_append empty_set Un_insert_right sup_bot.right_neutral)
  moreover have "(n, c, Errored err) \<notin> set (butlast tr)"
    using assms(2) by (auto simp: list_all_iff completed_def)
  ultimately show ?thesis using assms(3) by auto
qed



text \<open>
  C8. If a call of \<^verbatim>\<open>runTestWithConcurrency\<close> returns an error, \<^verbatim>\<open>Run\<close> returns a nil map
  together with an error whose text contains the name of the model of that call, which
  is the last call made; the results of the calls completed before are dropped (the
  engine is left as it was). \<^verbatim>\<open>Run\<close> returns a map only with a nil error, when every call
  of the matrix completed; and a nil map only with the error of the failed call.
\<close>

theorem Run_all_or_nothing:
  "(\<forall>n c err. (n, c, Errored err) \<in> set (cells_run (Run runCell e w)) \<longrightarrow>
        returned (Run runCell e w) = Inr (None, Some (errorf_prefix @ n @ errorf_infix @ err))
      \<and> engine (Run runCell e w) = e
      \<and> last (cells_run (Run runCell e w)) = (n, c, Errored err))
   \<and> (\<forall>m x. returned (Run runCell e w) = Inr (Some m, x) \<longrightarrow>
        x = None \<and> list_all completed (cells_run (Run runCell e w))
      \<and> map cell_of (cells_run (Run runCell e w)) = spec_cells (config e) (models e))
   \<and> (\<forall>x. returned (Run runCell e w) = Inr (None, x) \<longrightarrow>
        (\<exists>n c err. x = Some (errorf_prefix @ n @ errorf_infix @ err)
           \<and> last (cells_run (Run runCell e w)) = (n, c, Errored err)))"
proof -
  from Run_shape [of runCell e w] obtain fl st where
    rm: "run_models runCell (config e) (models e)
           \<lparr>results_var = Map.empty, calls = [], world = w\<rparr> = (fl, st)"
    and cr: "cells_run (Run runCell e w) = calls st"
    and sh: "log_shape fl (calls st) (spec_cells (config e) (models e))"
    and rt: "case fl of
          Continue \<Rightarrow> returned (Run runCell e w) = Inr (Some (results_var st), None)
        | ReturnError msg \<Rightarrow> returned (Run runCell e w) = Inr (None, Some msg)
                             \<and> engine (Run runCell e w) = e
        | Panic p \<Rightarrow> returned (Run runCell e w) = Inl p"
    by blast
  have 1: "returned (Run runCell e w) = Inr (None, Some (errorf_prefix @ n @ errorf_infix @ err))
      \<and> engine (Run runCell e w) = e
      \<and> last (cells_run (Run runCell e w)) = (n, c, Errored err)"
    if mem: "(n, c, Errored err) \<in> set (cells_run (Run runCell e w))" for n c err
  proof (cases fl)
    case Continue
    with sh have "list_all completed (calls st)" using log_end_Continue by blast
    with mem show ?thesis by (auto simp: cr list_all_iff completed_def)
  next
    case (ReturnError msg)
    with sh have k: "calls st \<noteq> []" "list_all completed (butlast (calls st))"
      "\<exists>e. snd (snd (last (calls st))) = Errored e \<and> msg = Errorf (fst (last (calls st))) e"
      using log_end_ReturnError by blast+
    from errored_is_last [OF k(1,2) mem [unfolded cr]]
    have l: "last (calls st) = (n, c, Errored err)" .
    with k(3) have "msg = Errorf n err" by simp
    with rt ReturnError l show ?thesis by (simp add: cr Errorf_def)
  next
    case (Panic p)
    with sh have k: "calls st \<noteq> []" "list_all completed (butlast (calls st))"
      "snd (snd (last (calls st))) = Panicked p"
      using log_end_Panic by blast+
    from errored_is_last [OF k(1,2) mem [unfolded cr]] k(3) show ?thesis by simp
  qed
  have 2: "x = None \<and> list_all completed (cells_run (Run runCell e w))
      \<and> map cell_of (cells_run (Run runCell e w)) = spec_cells (config e) (models e)"
    if "returned (Run runCell e w) = Inr (Some m, x)" for m x
  proof -
    have c: "fl = Continue" using rt that by (cases fl) simp_all
    then have "x = None" using rt that by simp
    with c sh show ?thesis using log_end_Continue by (simp add: cr)
  qed
  have 3: "\<exists>n c err. x = Some (errorf_prefix @ n @ errorf_infix @ err)
           \<and> last (cells_run (Run runCell e w)) = (n, c, Errored err)"
    if ret: "returned (Run runCell e w) = Inr (None, x)" for x
  proof -
    obtain msg where c: "fl = ReturnError msg" and x: "x = Some msg"
      using rt ret by (cases fl) simp_all
    with sh obtain err where
      "snd (snd (last (calls st))) = Errored err" "msg = Errorf (fst (last (calls st))) err"
      using log_end_ReturnError by blast
    then have "x = Some (errorf_prefix @ fst (last (calls st)) @ errorf_infix @ err)
      \<and> last (cells_run (Run runCell e w))
          = (fst (last (calls st)), fst (snd (last (calls st))), Errored err)"
      using x by (simp add: cr Errorf_def prod_eq_iff)
    then show ?thesis by blast
  qed
  from 1 2 3 show ?thesis by blast
qed

theorem Run_all_or_nothing_witness:
  "cells_run (Run (\<lambda>mdl c r w. (Inr (r, if c = 20 then Some ''boom'' else None), w))
     \<lparr>config = \<lparr>Concurrency = 1, Duration = 1000000000, WarmupDuration = 0,
        RequestTimeout = 30000000000, ConcurrencyLevels = [10, 20, 50], ShowProgress = False,
        MaxRetries = 0, cfg_LatencyPercentiles = [50, 99]\<rparr>,
      models = [\<lparr>mdl_Name = ''variant'', mdl_ConcurrencyLevels = [5, 10], mdl_Stream = None\<rparr>,
        \<lparr>mdl_Name = ''other'', mdl_ConcurrencyLevels = [], mdl_Stream = None\<rparr>],
      results = Map.empty\<rparr> ())
     = [(''variant'', 5, Completed), (''variant'', 10, Completed), (''other'', 10, Completed),
        (''other'', 20, Errored ''boom'')]
   \<and> returned (Run (\<lambda>mdl c r w. (Inr (r, if c = 20 then Some ''boom'' else None), w))
     \<lparr>config = \<lparr>Concurrency = 1, Duration = 1000000000, WarmupDuration = 0,
        RequestTimeout = 30000000000, ConcurrencyLevels = [10, 20, 50], ShowProgress = False,
        MaxRetries = 0, cfg_LatencyPercentiles = [50, 99]\<rparr>,
      models = [\<lparr>mdl_Name = ''variant'', mdl_ConcurrencyLevels = [5, 10], mdl_Stream = None\<rparr>,
        \<lparr>mdl_Name = ''other'', mdl_ConcurrencyLevels = [], mdl_Stream = None\<rparr>],
      results = Map.empty\<rparr> ())
     = Inr (None, Some (errorf_prefix @ ''other'' @ errorf_infix @ ''boom''))
   \<and> engine (Run (\<lambda>mdl c r w. (Inr (r, if c = 20 then Some ''boom'' else None), w))
     \<lparr>config = \<lparr>Concurrency = 1, Duration = 1000000000, WarmupDuration = 0,
        RequestTimeout = 30000000000, ConcurrencyLevels = [10, 20, 50], ShowProgress = False,
        MaxRetries = 0, cfg_LatencyPercentiles = [50, 99]\<rparr>,
      models = [\<lparr>mdl_Name = ''variant'', mdl_ConcurrencyLevels = [5, 10], mdl_Stream = None\<rparr>,
        \<lparr>mdl_Name = ''other'', mdl_ConcurrencyLevels = [], mdl_Stream = None\<rparr>],
      results = Map.empty\<rparr> ())
     = \<lparr>config = \<lparr>Concurrency = 1, Duration = 1000000000, WarmupDuration = 0,
        RequestTimeout = 30000000000, ConcurrencyLevels = [10, 20, 50], ShowProgress = False,
        MaxRetries = 0, cfg_LatencyPercentiles = [50, 99]\<rparr>,
      models = [\<lparr>mdl_Name = ''variant'', mdl_ConcurrencyLevels = [5, 10], mdl_Stream = None\<rparr>,
        \<lparr>mdl_Name = ''other'', mdl_ConcurrencyLevels = [], mdl_Stream = None\<rparr>],
      results = Map.empty\<rparr>"
proof -
  have ev: "cells_run (Run (\<lambda>mdl c r w. (Inr (r, if c = 20 then Some ''boom'' else None), w))
     \<lparr>config = \<lparr>Concurrency = 1, Duration = 1000000000, WarmupDuration = 0,
        RequestTimeout = 30000000000, ConcurrencyLevels = [10, 20, 50], ShowProgress = False,
        MaxRetries = 0, cfg_LatencyPercentiles = [50, 99]\<rparr>,
      models = [\<lparr>mdl_Name = ''variant'', mdl_ConcurrencyLevels = [5, 10], mdl_Stream = None\<rparr>,
        \<lparr>mdl_Name = ''other'', mdl_ConcurrencyLevels = [], mdl_Stream = None\<rparr>],
      results = Map.empty\<rparr> ())
     = [(''variant'', 5, Completed), (''variant'', 10, Completed), (''other'', 10, Completed),
        (''other'', 20, Errored ''boom'')]"
    by (simp add: Run_def Let_def)
  then have mem: "(''other'', 20, Errored ''boom'') \<in> set (cells_run (Run (\<lambda>mdl c r w. (Inr (r, if c = 20 then Some ''boom'' else None), w))
     \<lparr>config = \<lparr>Concurrency = 1, Duration = 1000000000, WarmupDuration = 0,
        RequestTimeout = 30000000000, ConcurrencyLevels = [10, 20, 50], ShowProgress = False,
        MaxRetries = 0, cfg_LatencyPercentiles = [50, 99]\<rparr>,
      models = [\<lparr>mdl_Name = ''variant'', mdl_ConcurrencyLevels = [5, 10], mdl_Stream = None\<rparr>,
        \<lparr>mdl_Name = ''other'', mdl_ConcurrencyLevels = [], mdl_Stream = None\<rparr>],
      results = Map.empty\<rparr> ()))"
    by simp
  note t = Run_all_or_nothing [of "\<lambda>mdl c r w. (Inr (r, if c = 20 then Some ''boom'' else None), w)"
     "\<lparr>config = \<lparr>Concurrency = 1, Duration = 1000000000, WarmupDuration = 0,
        RequestTimeout = 30000000000, ConcurrencyLevels = [10, 20, 50], ShowProgress = False,
        MaxRetries = 0, cfg_LatencyPercentiles = [50, 99]\<rparr>,
      models = [\<lparr>mdl_Name = ''variant'', mdl_ConcurrencyLevels = [5, 10], mdl_Stream = None\<rparr>,
        \<lparr>mdl_Name = ''other'', mdl_ConcurrencyLevels = [], mdl_Stream = None\<rparr>],
      results = Map.empty\<rparr>" "()"]
  from t [THEN conjunct1, rule_format, OF mem] ev show ?thesis by simp
qed

end
